theory Spec2Isabelle
  imports Main
begin

section \<open>The SGR parser of enview (parse.go)\<close>

text \<open>
  Strings and runes. A Go string is a sequence of bytes, modelled as an
  Isabelle \<open>string\<close> (a list of 8-bit characters). A rune is a code point, a
  Go \<^verbatim>\<open>int32\<close>, modelled as an \<open>int\<close>; every rune the parser sees comes out of
  the decoder and lies in 0..0x10FFFF.
\<close>

type_synonym rune = int

text \<open>A rune literal of the source, such as \<^verbatim>\<open>'m'\<close> or \<^verbatim>\<open>'\x1b'\<close>.\<close>

definition runeLit :: "char \<Rightarrow> rune" where
  "runeLit ch = of_char ch"

definition ESC :: char where
  "ESC = CHR 0x1B"

definition RuneError :: rune where
  "RuneError = 0xFFFD"

text \<open>
  \<^verbatim>\<open>utf8.DecodeRuneInString\<close> of the Go standard library, which the loop
  \<^verbatim>\<open>for _, c := range in\<close> applies at each position: the rune at the head of
  the string and its width in bytes. A byte that does not start a well-formed
  sequence (a continuation or an illegal leading byte, a sequence cut short, a
  second byte outside the range its leading byte accepts, which excludes
  overlong forms, surrogates and values above 0x10FFFF) is read as
  \<open>RuneError\<close> of width 1. The library's tables \<^verbatim>\<open>first\<close> and
  \<^verbatim>\<open>acceptRanges\<close> are the three functions of the leading byte below; its
  masks, shifts and ors are written as \<open>mod\<close>, multiplication and addition.
\<close>

definition firstSize :: "int \<Rightarrow> nat" where
  "firstSize s0 = (if s0 < 0xE0 then 2 else if s0 < 0xF0 then 3 else 4)"

definition acceptLo :: "int \<Rightarrow> int" where
  "acceptLo s0 = (if s0 = 0xE0 then 0xA0 else if s0 = 0xF0 then 0x90 else 0x80)"

definition acceptHi :: "int \<Rightarrow> int" where
  "acceptHi s0 = (if s0 = 0xED then 0x9F else if s0 = 0xF4 then 0x8F else 0xBF)"

definition decodeRune :: "string \<Rightarrow> rune \<times> nat" where
  "decodeRune s =
     (if length s < 1 then (RuneError, 0)
      else
        (let s0 = of_char (s ! 0) :: int in
         if s0 < 0x80 then (s0, 1)
         else if s0 < 0xC2 \<or> 0xF4 < s0 then (RuneError, 1)
         else if length s < firstSize s0 then (RuneError, 1)
         else
           (let s1 = of_char (s ! 1) :: int in
            if s1 < acceptLo s0 \<or> acceptHi s0 < s1 then (RuneError, 1)
            else if firstSize s0 \<le> 2 then ((s0 mod 32) * 64 + s1 mod 64, 2)
            else
              (let s2 = of_char (s ! 2) :: int in
               if s2 < 0x80 \<or> 0xBF < s2 then (RuneError, 1)
               else if firstSize s0 \<le> 3 then
                 ((s0 mod 16) * 4096 + (s1 mod 64) * 64 + s2 mod 64, 3)
               else
                 (let s3 = of_char (s ! 3) :: int in
                  if s3 < 0x80 \<or> 0xBF < s3 then (RuneError, 1)
                  else ((s0 mod 8) * 262144 + (s1 mod 64) * 4096
                          + (s2 mod 64) * 64 + s3 mod 64, 4))))))"

text \<open>
  The runes that \<^verbatim>\<open>for _, c := range in\<close> yields, in order: the rune decoded
  at the head, then those of the string behind its width. The width is at
  least 1 on a non-empty string (lemma \<open>decodeRune_width\<close>), so dropping
  \<open>width - 1\<close> bytes behind the first one is dropping \<open>width\<close> bytes.
\<close>

fun runes :: "string \<Rightarrow> rune list" where
  "runes [] = []"
| "runes (c0 # s) =
     fst (decodeRune (c0 # s)) # runes (drop (snd (decodeRune (c0 # s)) - 1) s)"

text \<open>
  \<^verbatim>\<open>strings.Builder.WriteRune\<close>, that is \<^verbatim>\<open>utf8.AppendRune\<close>: the UTF-8 bytes
  of a rune; a negative value, a surrogate or a value above 0x10FFFF is
  written as \<open>RuneError\<close>, the three bytes EF BF BD.
\<close>

definition encodeRune :: "rune \<Rightarrow> string" where
  "encodeRune r =
     (if 0 \<le> r \<and> r \<le> 0x7F then [char_of r]
      else if 0 \<le> r \<and> r \<le> 0x7FF then [char_of (0xC0 + r div 64), char_of (0x80 + r mod 64)]
      else if r < 0 \<or> 0x10FFFF < r \<or> (0xD800 \<le> r \<and> r \<le> 0xDFFF) then
        [CHR 0xEF, CHR 0xBF, CHR 0xBD]
      else if r \<le> 0xFFFF then
        [char_of (0xE0 + r div 4096), char_of (0x80 + (r div 64) mod 64),
         char_of (0x80 + r mod 64)]
      else
        [char_of (0xF0 + r div 262144), char_of (0x80 + (r div 4096) mod 64),
         char_of (0x80 + (r div 64) mod 64), char_of (0x80 + r mod 64)])"

text \<open>The bytes that writing a sequence of runes one by one produces.\<close>

definition encodeRunes :: "rune list \<Rightarrow> string" where
  "encodeRunes rs = concat (map encodeRune rs)"

subsection \<open>Errors\<close>

text \<open>
  \<open>parseError\<close> is the package variable \<^verbatim>\<open>errors.New("parse error")\<close>;
  \<open>NumError\<close> stands for the \<^verbatim>\<open>*strconv.NumError\<close> that \<^verbatim>\<open>strconv.Atoi\<close>
  returns (syntax or range), its fields not modelled.
\<close>

datatype error = parseError | NumError

subsection \<open>Color tables\<close>

definition LowColors :: "string list" where
  "LowColors =
     [''#303030'', ''#800000'', ''#008000'', ''#808000'',
      ''#000080'', ''#800080'', ''#008080'', ''#c0c0c0'']"

definition HighColors :: "string list" where
  "HighColors =
     [''#808080'', ''#ff0000'', ''#00ff00'', ''#ffff00'',
      ''#0000ff'', ''#ff00ff'', ''#00ffff'', ''#ffffff'']"

definition GrayscaleColors :: "string list" where
  "GrayscaleColors =
     [''#080808'', ''#121212'', ''#1c1c1c'', ''#262626'', ''#303030'', ''#3a3a3a'',
      ''#444444'', ''#4e4e4e'', ''#585858'', ''#626262'', ''#6c6c6c'', ''#767676'',
      ''#808080'', ''#8a8a8a'', ''#9e9e9e'', ''#9e9e9e'', ''#a8a8a8'', ''#b2b2b2'',
      ''#bcbcbc'', ''#c6c6c6'', ''#d0d0d0'', ''#dadada'', ''#e4e4e4'', ''#eeeeee'']"

definition CubeColors :: "string list" where
  "CubeColors = [''00'', ''5f'', ''87'', ''af'', ''d7'', ''ff'']"

text \<open>
  \<^verbatim>\<open>color8bit\<close>. Go's \<open>/\<close> truncates toward zero; in the cube branch both
  dividends are non-negative, where that is \<open>div\<close>. Every index is inside its
  table under the guard of its branch (lemma \<open>color8bit_indices\<close> below), so the
  slice reads never panic.
\<close>

definition color8bit :: "int \<Rightarrow> string" where
  "color8bit c =
     (if 0 \<le> c \<and> c \<le> 7 then LowColors ! nat c
      else if 8 \<le> c \<and> c \<le> 15 then HighColors ! nat (c - 8)
      else if 16 \<le> c \<and> c \<le> 231 then
        (let r = (c - 16) div 36;
             g = (c - 16 - 36 * r) div 6;
             b = c - 16 - 36 * r - 6 * g
         in ''#'' @ CubeColors ! nat r @ CubeColors ! nat g @ CubeColors ! nat b)
      else if 232 \<le> c \<and> c \<le> 255 then GrayscaleColors ! nat (c - 232)
      else [])"

subsection \<open>Runs and the HTML renderer\<close>

text \<open>The struct \<^verbatim>\<open>text\<close>; an unset color is the empty string.\<close>

record text_run =
  t_text :: string
  t_bg :: string
  t_fg :: string
  t_bold :: bool

text \<open>
  \<^verbatim>\<open>html.EscapeString\<close> of the Go standard library: a replacer of
  \<open>&\<close>, \<open>'\<close>, \<open><\<close>, \<open>>\<close> and \<open>"\<close> by \<open>&amp;\<close>, \<open>&#39;\<close>, \<open>&lt;\<close>, \<open>&gt;\<close>
  and \<open>&#34;\<close>.
\<close>

definition escapeChar :: "char \<Rightarrow> string" where
  "escapeChar c =
     (if c = CHR ''&'' then ''&amp;''
      else if c = CHR 0x27 then ''&#39;''
      else if c = CHR ''<'' then ''&lt;''
      else if c = CHR ''>'' then ''&gt;''
      else if c = CHR 0x22 then ''&#34;''
      else [c])"

definition EscapeString :: "string \<Rightarrow> string" where
  "EscapeString s = concat (map escapeChar s)"

text \<open>\<^verbatim>\<open>strings.Join\<close>.\<close>

fun Join :: "string list \<Rightarrow> string \<Rightarrow> string" where
  "Join [] sep = []"
| "Join [x] sep = x"
| "Join (x # y # ys) sep = x @ sep @ Join (y # ys) sep"

text \<open>
  \<^verbatim>\<open>text.toHTML\<close>; the \<^verbatim>\<open>Sprintf\<close> with its two \<open>%v\<close> is written out as a
  concatenation.
\<close>

definition toHTML :: "text_run \<Rightarrow> string" where
  "toHTML t =
     (let escaped = EscapeString (t_text t);
          styles0 = [];
          styles1 = (if t_bg t \<noteq> [] then styles0 @ [''background-color: '' @ t_bg t] else styles0);
          styles2 = (if t_fg t \<noteq> [] then styles1 @ [''color: '' @ t_fg t] else styles1);
          styles3 = (if t_bold t then styles2 @ [''font-weight: bold''] else styles2)
      in if length styles3 > 0
         then ''<span style='' @ [CHR 0x22] @ Join styles3 ''; '' @ [CHR 0x22] @ ''>''
                @ escaped @ ''</span>''
         else escaped)"

subsection \<open>The parser\<close>

text \<open>
  The state of the parser is one of its three methods; the model names them.
\<close>

datatype parseState = StatePlain | StateESC | StateCSI

record parser =
  p_state :: parseState
  p_ts :: "text_run list"
  p_b :: string
  p_c :: string
  p_bg :: string
  p_fg :: string
  p_bold :: bool

text \<open>The zero value \<^verbatim>\<open>parser{}\<close>; its nil state is never called.\<close>

definition parser0 :: parser where
  "parser0 = \<lparr>p_state = StatePlain, p_ts = [], p_b = [], p_c = [],
               p_bg = [], p_fg = [], p_bold = False\<rparr>"

text \<open>\<^verbatim>\<open>parser.append\<close>.\<close>

definition parser_append :: "parser \<Rightarrow> parser" where
  "parser_append p =
     p\<lparr>p_ts := p_ts p @ [\<lparr>t_text = p_b p, t_bg = p_bg p, t_fg = p_fg p, t_bold = p_bold p\<rparr>],
       p_b := []\<rparr>"

text \<open>
  \<^verbatim>\<open>strings.Split(s, ";")\<close> for a separator of one character: the pieces
  between the separators, one piece (the empty one) for the empty string.
\<close>

fun Split :: "string \<Rightarrow> char \<Rightarrow> string list" where
  "Split [] sep = [[]]"
| "Split (x # xs) sep =
     (if x = sep then [] # Split xs sep
      else (case Split xs sep of
              [] \<Rightarrow> [[x]]
            | y # ys \<Rightarrow> (x # y) # ys))"

text \<open>
  \<^verbatim>\<open>strconv.Atoi\<close> of the Go standard library, for a 64-bit \<^verbatim>\<open>int\<close>: an
  optional sign, then one or more decimal digits, and a value that fits the
  type; anything else is a \<open>NumError\<close>.
\<close>

definition isDigit :: "char \<Rightarrow> bool" where
  "isDigit ch = (48 \<le> (of_char ch :: nat) \<and> (of_char ch :: nat) \<le> 57)"

fun digitsValue :: "int \<Rightarrow> string \<Rightarrow> int" where
  "digitsValue n [] = n"
| "digitsValue n (ch # s) = digitsValue (n * 10 + (int (of_char ch) - 48)) s"

definition Atoi :: "string \<Rightarrow> error + int" where
  "Atoi s0 =
     (let s = (case s0 of
                 [] \<Rightarrow> []
               | ch # r \<Rightarrow> if ch = CHR ''-'' \<or> ch = CHR ''+'' then r else s0)
      in if s = [] \<or> \<not> list_all isDigit s then Inl NumError
         else
           (let n = (if hd s0 = CHR ''-'' then - digitsValue 0 s else digitsValue 0 s)
            in if - (2 ^ 63) \<le> n \<and> n < 2 ^ 63 then Inr n else Inl NumError))"

text \<open>The first loop of \<^verbatim>\<open>parseCSI\<close>: every piece converted, the first failure returned.\<close>

fun atoiAll :: "string list \<Rightarrow> error + int list" where
  "atoiAll [] = Inr []"
| "atoiAll (str # strs) =
     (case Atoi str of
        Inl err \<Rightarrow> Inl err
      | Inr n \<Rightarrow> (case atoiAll strs of Inl err \<Rightarrow> Inl err | Inr ns \<Rightarrow> Inr (n # ns)))"

text \<open>
  The second loop of \<^verbatim>\<open>parseCSI\<close>, \<^verbatim>\<open>for i := 0; i < len(codes); i++\<close>, from
  index \<open>i\<close> on. \<^verbatim>\<open>len(codes)-2\<close> is a signed \<^verbatim>\<open>int\<close> and may be negative.
  The branches for 38 and 48 advance \<open>i\<close> themselves before the loop's own
  \<^verbatim>\<open>i++\<close>. Every slice read is in range under the guards in force: \<open>i\<close> and,
  behind \<^verbatim>\<open>i < len(codes)-2\<close>, \<open>i + 1\<close> and \<open>i + 2\<close> in \<open>codes\<close>; 0..7 in the
  two color tables.
\<close>

function applyCodes :: "int list \<Rightarrow> nat \<Rightarrow> parser \<Rightarrow> error + parser" where
  "applyCodes codes i p =
     (if i < length codes then
        (if 0 = codes ! i then
           applyCodes codes (i + 1) (p\<lparr>p_bg := [], p_fg := [], p_bold := False\<rparr>)
         else if 1 = codes ! i then
           applyCodes codes (i + 1) (p\<lparr>p_bold := True\<rparr>)
         else if 30 \<le> codes ! i \<and> codes ! i \<le> 37 then
           applyCodes codes (i + 1) (p\<lparr>p_fg := LowColors ! nat (codes ! i - 30)\<rparr>)
         else if 38 = codes ! i then
           (if int i < int (length codes) - 2 then
              (if 5 = codes ! (i + 1) then
                 applyCodes codes (i + 3) (p\<lparr>p_fg := color8bit (codes ! (i + 2))\<rparr>)
               else applyCodes codes (i + 2) p)
            else Inl parseError)
         else if 40 \<le> codes ! i \<and> codes ! i \<le> 47 then
           applyCodes codes (i + 1) (p\<lparr>p_bg := LowColors ! nat (codes ! i - 40)\<rparr>)
         else if 48 = codes ! i then
           (if int i < int (length codes) - 2 then
              (if 5 = codes ! (i + 1) then
                 applyCodes codes (i + 3) (p\<lparr>p_bg := color8bit (codes ! (i + 2))\<rparr>)
               else applyCodes codes (i + 2) p)
            else Inl parseError)
         else if 90 \<le> codes ! i \<and> codes ! i \<le> 97 then
           applyCodes codes (i + 1) (p\<lparr>p_fg := HighColors ! nat (codes ! i - 90)\<rparr>)
         else if 100 \<le> codes ! i \<and> codes ! i \<le> 107 then
           applyCodes codes (i + 1) (p\<lparr>p_bg := HighColors ! nat (codes ! i - 100)\<rparr>)
         else applyCodes codes (i + 1) p)
      else Inr p)"
  by pat_completeness auto
termination
  by (relation "measure (\<lambda>(codes, i, p). length codes - i)") auto

declare applyCodes.simps [simp del]

text \<open>
  The three state functions. Each returns the next state or an error, as the
  Go methods do; the assignment \<^verbatim>\<open>p.state, err = p.state(c)\<close> is in \<open>loop\<close>.
\<close>

definition parseCSI :: "parser \<Rightarrow> rune \<Rightarrow> error + (parser \<times> parseState)" where
  "parseCSI p c =
     (if c = runeLit (CHR ''m'') then
        (case atoiAll (Split (p_c p) (CHR '';'')) of
           Inl err \<Rightarrow> Inl err
         | Inr codes \<Rightarrow>
             (case applyCodes codes 0 (p\<lparr>p_c := []\<rparr>) of
                Inl err \<Rightarrow> Inl err
              | Inr p' \<Rightarrow> Inr (p', StatePlain)))
      else Inr (p\<lparr>p_c := p_c p @ encodeRune c\<rparr>, StateCSI))"

definition parseESC :: "parser \<Rightarrow> rune \<Rightarrow> error + (parser \<times> parseState)" where
  "parseESC p c = (if c = runeLit (CHR ''['') then Inr (p, StateCSI) else Inl parseError)"

definition parsePlain :: "parser \<Rightarrow> rune \<Rightarrow> error + (parser \<times> parseState)" where
  "parsePlain p c =
     (if c = runeLit (CHR 0x1B) then
        Inr (if length (p_b p) > 0 then parser_append p else p, StateESC)
      else Inr (p\<lparr>p_b := p_b p @ encodeRune c\<rparr>, StatePlain))"

text \<open>The call \<^verbatim>\<open>p.state(c)\<close> through the function value.\<close>

definition callState :: "parser \<Rightarrow> rune \<Rightarrow> error + (parser \<times> parseState)" where
  "callState p c =
     (case p_state p of
        StatePlain \<Rightarrow> parsePlain p c
      | StateESC \<Rightarrow> parseESC p c
      | StateCSI \<Rightarrow> parseCSI p c)"

text \<open>
  The loop of \<^verbatim>\<open>parser.parse\<close> over the runes of the input. At an error the
  Go method returns at once. The failing state functions (\<^verbatim>\<open>parseESC\<close>,
  \<^verbatim>\<open>parseCSI\<close>) never write \<^verbatim>\<open>p.ts\<close>, and no caller reads another field of
  the parser after an error, so the model returns the parser as it was before
  the failing call.
\<close>

fun loop :: "parser \<Rightarrow> rune list \<Rightarrow> parser \<times> error option" where
  "loop p [] = (p, None)"
| "loop p (c # cs) =
     (case callState p c of
        Inl err \<Rightarrow> (p, Some err)
      | Inr (p', st) \<Rightarrow> loop (p'\<lparr>p_state := st\<rparr>) cs)"

text \<open>\<^verbatim>\<open>parser.parse\<close>: the parser after the call, and the error returned.\<close>

definition parser_parse :: "parser \<Rightarrow> string \<Rightarrow> parser \<times> error option" where
  "parser_parse p inp =
     (case loop (p\<lparr>p_ts := [], p_state := StatePlain\<rparr>) (runes inp) of
        (p', Some err) \<Rightarrow> (p', Some err)
      | (p', None) \<Rightarrow> (parser_append p', None))"

text \<open>The function \<^verbatim>\<open>parse\<close>: the pair \<^verbatim>\<open>(p.ts, err)\<close>.\<close>

definition parse :: "string \<Rightarrow> text_run list \<times> error option" where
  "parse inp =
     (if length inp = 0 then ([], None)
      else (case parser_parse parser0 inp of (p, err) \<Rightarrow> (p_ts p, err)))"

text \<open>The function \<^verbatim>\<open>parseHTML\<close>.\<close>

definition parseHTML :: "string \<Rightarrow> string \<times> error option" where
  "parseHTML bs =
     (case parser_parse parser0 bs of
        (p, Some err) \<Rightarrow> ([], Some err)
      | (p, None) \<Rightarrow> (Join (map toHTML (p_ts p)) [], None))"

subsection \<open>The renderings the specification describes\<close>

text \<open>
  Well-formed UTF-8, by the table of well-formed byte sequences of the Unicode
  standard: one byte 00..7F; C2..DF and one continuation byte; E0..EF and two,
  the first in A0..BF behind E0 and in 80..9F behind ED; F0..F4 and three, the
  first in 90..BF behind F0 and in 80..8F behind F4. A continuation byte is
  80..BF. \<open>spec_headLen\<close> is the length of the well-formed sequence at the
  head of a string, 0 if there is none.
\<close>

definition byteIn :: "int \<Rightarrow> int \<Rightarrow> char \<Rightarrow> bool" where
  "byteIn lo hi ch = (lo \<le> of_char ch \<and> of_char ch \<le> hi)"

fun spec_headLen :: "string \<Rightarrow> nat" where
  "spec_headLen [] = 0"
| "spec_headLen (c0 # r) =
     (if byteIn 0x00 0x7F c0 then 1
      else if byteIn 0xC2 0xDF c0 \<and> 1 \<le> length r \<and> byteIn 0x80 0xBF (r ! 0) then 2
      else if byteIn 0xE0 0xEF c0 \<and> 2 \<le> length r
           \<and> byteIn (if c0 = CHR 0xE0 then 0xA0 else 0x80) (if c0 = CHR 0xED then 0x9F else 0xBF) (r ! 0)
           \<and> byteIn 0x80 0xBF (r ! 1) then 3
      else if byteIn 0xF0 0xF4 c0 \<and> 3 \<le> length r
           \<and> byteIn (if c0 = CHR 0xF0 then 0x90 else 0x80) (if c0 = CHR 0xF4 then 0x8F else 0xBF) (r ! 0)
           \<and> byteIn 0x80 0xBF (r ! 1) \<and> byteIn 0x80 0xBF (r ! 2) then 4
      else 0)"

declare spec_headLen.simps(2) [simp del]

text \<open>A string is well-formed UTF-8 when it is a chain of well-formed sequences.\<close>

function spec_wellFormedUTF8 :: "string \<Rightarrow> bool" where
  "spec_wellFormedUTF8 [] = True"
| "spec_wellFormedUTF8 (c0 # r) =
     (spec_headLen (c0 # r) \<noteq> 0 \<and> spec_wellFormedUTF8 (drop (spec_headLen (c0 # r) - 1) r))"
  by pat_completeness auto
termination
  by (relation "measure length") simp_all

text \<open>
  A string with its ill-formed bytes replaced: every well-formed sequence is
  kept, and every byte at which no well-formed sequence starts becomes the
  three bytes EF BF BD, the UTF-8 form of U+FFFD.
\<close>

function spec_replaceIllFormed :: "string \<Rightarrow> string" where
  "spec_replaceIllFormed [] = []"
| "spec_replaceIllFormed (c0 # r) =
     (if spec_headLen (c0 # r) = 0 then [CHR 0xEF, CHR 0xBF, CHR 0xBD] @ spec_replaceIllFormed r
      else take (spec_headLen (c0 # r)) (c0 # r)
             @ spec_replaceIllFormed (drop (spec_headLen (c0 # r) - 1) r))"
  by pat_completeness auto
termination
  by (relation "measure length") simp_all

text \<open>
  A string with its escape sequences removed, in the specification's words:
  a sequence is ESC, \<open>[\<close>, the parameter characters and the terminating \<open>m\<close>;
  an ESC at the very end, or an ESC \<open>[\<close> that no \<open>m\<close> terminates, is a trailing
  unterminated sequence and is removed up to the end of the input. Everything
  else is kept.
\<close>

definition afterM :: "string \<Rightarrow> string" where
  "afterM ds = drop 1 (dropWhile (\<lambda>x. x \<noteq> CHR ''m'') ds)"

function spec_stripSGR :: "string \<Rightarrow> string" where
  "spec_stripSGR [] = []"
| "spec_stripSGR [c] = (if c = ESC then [] else [c])"
| "spec_stripSGR (c # d # ds) =
     (if c = ESC \<and> d = CHR ''['' then spec_stripSGR (afterM ds)
      else c # spec_stripSGR (d # ds))"
  by pat_completeness auto
termination
proof (relation "measure length")
  fix c d :: char and ds :: string
  have "length (dropWhile (\<lambda>x. x \<noteq> CHR ''m'') ds) \<le> length ds"
    by (rule length_dropWhile_le)
  then show "(afterM ds, c # d # ds) \<in> measure length"
    by (simp add: afterM_def)
qed simp_all

text \<open>
  The style declarations of a run, in the specification's words: background-color,
  color and font-weight in this order, each only if set.
\<close>

definition spec_styleDecls :: "text_run \<Rightarrow> string list" where
  "spec_styleDecls t =
     map snd (filter fst
       [(t_bg t \<noteq> [], ''background-color: '' @ t_bg t),
        (t_fg t \<noteq> [], ''color: '' @ t_fg t),
        (t_bold t, ''font-weight: bold'')])"

definition spec_renderRun :: "text_run \<Rightarrow> string" where
  "spec_renderRun t =
     (if t_fg t = [] \<and> t_bg t = [] \<and> \<not> t_bold t then EscapeString (t_text t)
      else ''<span style='' @ [CHR 0x22] @ Join (spec_styleDecls t) ''; '' @ [CHR 0x22] @ ''>''
             @ EscapeString (t_text t) @ ''</span>'')"

text \<open>The run that the parser would flush from its pending buffer.\<close>

definition pendingRun :: "parser \<Rightarrow> text_run" where
  "pendingRun p = \<lparr>t_text = p_b p, t_bg = p_bg p, t_fg = p_fg p, t_bold = p_bold p\<rparr>"

section \<open>Runes and their bytes\<close>

lemma of_char_int_range: "0 \<le> (of_char ch :: int)" "(of_char ch :: int) < 256"
proof -
  have "(of_char ch :: int) = int (of_char ch :: nat)"
    by (simp add: of_char_def)
  moreover have "(of_char ch :: nat) < 256"
    by simp
  ultimately show "0 \<le> (of_char ch :: int)" "(of_char ch :: int) < 256"
    by simp_all
qed

lemma char_eq_iff_int: "c = d \<longleftrightarrow> (of_char c :: int) = of_char d"
  by (metis char_of_char)

text \<open>On a non-empty string the decoder consumes at least one byte and no more than there are.\<close>

lemma firstSize_range: "2 \<le> firstSize s0" "firstSize s0 \<le> 4"
  by (simp_all add: firstSize_def)

lemma decodeRune_width:
  "s \<noteq> [] \<Longrightarrow> 1 \<le> snd (decodeRune s) \<and> snd (decodeRune s) \<le> length s"
proof -
  assume "s \<noteq> []"
  then have "1 \<le> length s"
    by (cases s) simp_all
  then show ?thesis
    unfolding decodeRune_def Let_def
    using firstSize_range [of "of_char (s ! 0)"] by (auto split: if_splits)
qed

lemma runes_step:
  "s \<noteq> [] \<Longrightarrow> runes s = fst (decodeRune s) # runes (drop (snd (decodeRune s)) s)"
proof (cases s)
  case Nil
  assume "s \<noteq> []" 
  with Nil show ?thesis by simp
next
  case (Cons c0 r)
  have "1 \<le> snd (decodeRune (c0 # r))"
    using decodeRune_width [of "c0 # r"] by simp
  then have "drop (snd (decodeRune (c0 # r))) (c0 # r) = drop (snd (decodeRune (c0 # r)) - 1) r"
    by (cases "snd (decodeRune (c0 # r))") simp_all
  with Cons show ?thesis
    by simp
qed

lemma runes_Nil_iff: "runes s = [] \<longleftrightarrow> s = []"
  by (cases s) simp_all

lemma high_byte: "128 \<le> x \<Longrightarrow> x < 256 \<Longrightarrow> \<not> (of_char (char_of (x :: int)) :: int) < 128"
  by simp

text \<open>
  A byte below 0x80 among the bytes written for a rune is the whole of them,
  and the rune is that byte: the bytes of a longer encoding are all 0x80 or
  above.
\<close>

lemma encodeRune_ascii_byte:
  assumes "b \<in> set (encodeRune r)" "(of_char b :: int) < 128"
  shows "r = of_char b \<and> encodeRune r = [b]"
proof -
  define hi where "hi x \<longleftrightarrow> \<not> (of_char x :: int) < 128" for x :: char
  have hiI: "hi (char_of x)" if "128 \<le> x" "x < 256" for x :: int
    unfolding hi_def using that by (rule high_byte)
  have cont: "hi (char_of (0x80 + x mod 64))" for x :: int
    by (rule hiI) simp_all
  have no: False if "\<forall>x \<in> set (encodeRune r). hi x"
    using that assms unfolding hi_def by blast
  consider (one) "0 \<le> r" "r \<le> 0x7F"
    | (two) "0x80 \<le> r" "r \<le> 0x7FF"
    | (err) "r < 0 \<or> 0x10FFFF < r \<or> (0xD800 \<le> r \<and> r \<le> 0xDFFF)"
    | (three) "0x800 \<le> r" "r \<le> 0xFFFF" "\<not> (0xD800 \<le> r \<and> r \<le> 0xDFFF)"
    | (four) "0x10000 \<le> r" "r \<le> 0x10FFFF"
    by linarith
  then show ?thesis
  proof cases
    case one
    then have e: "encodeRune r = [char_of r]"
      by (simp add: encodeRune_def)
    with assms(1) have b: "b = char_of r"
      by simp
    then have "(of_char b :: int) = r"
      using one by simp
    with e b show ?thesis
      by simp
  next
    case two
    then have e: "encodeRune r = [char_of (0xC0 + r div 64), char_of (0x80 + r mod 64)]"
      by (simp add: encodeRune_def)
    have "0 \<le> r div 64" "r div 64 \<le> 31"
      using two by arith+
    then have "hi (char_of (0xC0 + r div 64))"
      by (intro hiI) simp_all
    with cont have "\<forall>x \<in> set (encodeRune r). hi x"
      by (simp add: e)
    with no show ?thesis by blast
  next
    case err
    then have e: "encodeRune r = [CHR 0xEF, CHR 0xBF, CHR 0xBD]"
      by (auto simp: encodeRune_def)
    have "\<forall>x \<in> set (encodeRune r). hi x"
      by (simp add: e hi_def)
    with no show ?thesis by blast
  next
    case three
    then have e: "encodeRune r =
        [char_of (0xE0 + r div 4096), char_of (0x80 + (r div 64) mod 64), char_of (0x80 + r mod 64)]"
      by (auto simp: encodeRune_def)
    have "0 \<le> r div 4096" "r div 4096 \<le> 15"
      using three by arith+
    then have "hi (char_of (0xE0 + r div 4096))"
      by (intro hiI) simp_all
    with cont have "\<forall>x \<in> set (encodeRune r). hi x"
      by (simp add: e)
    with no show ?thesis by blast
  next
    case four
    then have e: "encodeRune r =
        [char_of (0xF0 + r div 262144), char_of (0x80 + (r div 4096) mod 64),
         char_of (0x80 + (r div 64) mod 64), char_of (0x80 + r mod 64)]"
      by (simp add: encodeRune_def)
    have "0 \<le> r div 262144" "r div 262144 \<le> 4"
      using four by arith+
    then have "hi (char_of (0xF0 + r div 262144))"
      by (intro hiI) simp_all
    with cont have "\<forall>x \<in> set (encodeRune r). hi x"
      by (simp add: e)
    with no show ?thesis by blast
  qed
qed

lemma encodeRune_runeLit: "(of_char ch :: int) < 128 \<Longrightarrow> encodeRune (runeLit ch) = [ch]"
  using of_char_int_range(1) [of ch] by (simp add: encodeRune_def runeLit_def)

lemma encodeRune_not_lit:
  "(of_char ch :: int) < 128 \<Longrightarrow> r \<noteq> runeLit ch \<Longrightarrow> ch \<notin> set (encodeRune r)"
  using encodeRune_ascii_byte [of ch r] by (auto simp: runeLit_def)

lemma encodeRunes_simps [simp]:
  "encodeRunes [] = []" "encodeRunes (r # rs) = encodeRune r @ encodeRunes rs"
  "encodeRunes (rs @ rs') = encodeRunes rs @ encodeRunes rs'"
  by (simp_all add: encodeRunes_def)

section \<open>Well-formed UTF-8 is read and written back unchanged\<close>

lemma pack2:
  fixes a b :: int
  assumes "0 \<le> b" "b < 64"
  shows "(a * 64 + b) div 64 = a" "(a * 64 + b) mod 64 = b"
  using assms by simp_all

lemma pack3:
  fixes a b c :: int
  assumes "0 \<le> b" "b < 64" "0 \<le> c" "c < 64"
  shows "(a * 4096 + b * 64 + c) div 4096 = a" "((a * 4096 + b * 64 + c) div 64) mod 64 = b"
    "(a * 4096 + b * 64 + c) mod 64 = c"
proof -
  have x: "a * 4096 + b * 64 + c = (a * 64 + b) * 64 + c"
    by simp
  have d: "(a * 4096 + b * 64 + c) div 64 = a * 64 + b"
    unfolding x using assms(3,4) by (rule pack2(1))
  show "((a * 4096 + b * 64 + c) div 64) mod 64 = b"
    unfolding d using assms(1,2) by (rule pack2(2))
  show "(a * 4096 + b * 64 + c) mod 64 = c"
    unfolding x using assms(3,4) by (rule pack2(2))
  have "(a * 4096 + b * 64 + c) div 4096 = ((a * 4096 + b * 64 + c) div 64) div 64"
    by (simp add: zdiv_zmult2_eq)
  also have "\<dots> = a"
    unfolding d using assms(1,2) by (rule pack2(1))
  finally show "(a * 4096 + b * 64 + c) div 4096 = a" .
qed

lemma pack4:
  fixes a b c d :: int
  assumes "0 \<le> b" "b < 64" "0 \<le> c" "c < 64" "0 \<le> d" "d < 64"
  shows "(a * 262144 + b * 4096 + c * 64 + d) div 262144 = a"
    "((a * 262144 + b * 4096 + c * 64 + d) div 4096) mod 64 = b"
    "((a * 262144 + b * 4096 + c * 64 + d) div 64) mod 64 = c"
    "(a * 262144 + b * 4096 + c * 64 + d) mod 64 = d"
proof -
  let ?x = "a * 262144 + b * 4096 + c * 64 + d"
  have x: "?x = (a * 4096 + b * 64 + c) * 64 + d"
    by simp
  have d: "?x div 64 = a * 4096 + b * 64 + c"
    unfolding x using assms(5,6) by (rule pack2(1))
  show "?x mod 64 = d"
    unfolding x using assms(5,6) by (rule pack2(2))
  show "(?x div 64) mod 64 = c"
    unfolding d using assms(1-4) by (rule pack3(3))
  have "?x div 4096 = (?x div 64) div 64"
    by (simp add: zdiv_zmult2_eq)
  also have "\<dots> = a * 64 + b"
    unfolding d using pack3(2) [OF assms(1-4), of a] pack2(1) [OF assms(3,4), of "a * 64 + b"]
    by simp
  finally have e: "?x div 4096 = a * 64 + b" .
  show "(?x div 4096) mod 64 = b"
    unfolding e using assms(1,2) by (rule pack2(2))
  have "?x div 262144 = (?x div 4096) div 64"
    by (simp add: zdiv_zmult2_eq)
  also have "\<dots> = a"
    unfolding e using assms(1,2) by (rule pack2(1))
  finally show "?x div 262144 = a" .
qed

lemma decode_encode_1:
  assumes "byteIn 0x00 0x7F c0"
  shows "decodeRune (c0 # r) = (of_char c0, 1)" "encodeRune (of_char c0) = [c0]"
  using assms by (simp_all add: byteIn_def decodeRune_def encodeRune_def)

lemma mod_offset:
  fixes a :: int
  assumes "0 \<le> a" "a < m"
  shows "(k * m + a) mod m = a"
  using assms by simp

lemma decodeRune_2:
  fixes s0 s1 :: int
  assumes "s0 = of_char c0" "s1 = of_char c1" "0xC2 \<le> s0" "s0 \<le> 0xDF" "0x80 \<le> s1" "s1 \<le> 0xBF"
  shows "decodeRune (c0 # c1 # r) = ((s0 mod 32) * 64 + s1 mod 64, 2)"
proof -
  have f: "firstSize s0 = 2" "acceptLo s0 = 0x80" "acceptHi s0 = 0xBF"
    using assms(3,4) by (simp_all add: firstSize_def acceptLo_def acceptHi_def)
  have c: "\<not> s0 < 0x80" "\<not> (s0 < 0xC2 \<or> 0xF4 < s0)" "\<not> (s1 < 0x80 \<or> 0xBF < s1)"
    using assms(3-6) by simp_all
  show ?thesis
    unfolding decodeRune_def Let_def
    by (simp only: list.size nth_Cons_0 nth_Cons_Suc One_nat_def assms(1,2) [symmetric] f c
        if_False if_True) simp
qed


lemma decodeRune_3:
  fixes s0 s1 s2 :: int
  assumes "s0 = of_char c0" "s1 = of_char c1" "s2 = of_char c2"
    "0xE0 \<le> s0" "s0 \<le> 0xEF" "acceptLo s0 \<le> s1" "s1 \<le> acceptHi s0" "0x80 \<le> s2" "s2 \<le> 0xBF"
  shows "decodeRune (c0 # c1 # c2 # r) = ((s0 mod 16) * 4096 + (s1 mod 64) * 64 + s2 mod 64, 3)"
proof -
  have f: "firstSize s0 = 3"
    using assms(4,5) by (simp add: firstSize_def)
  have c: "\<not> s0 < 0x80" "\<not> (s0 < 0xC2 \<or> 0xF4 < s0)" "\<not> (s1 < acceptLo s0 \<or> acceptHi s0 < s1)"
    "\<not> (s2 < 0x80 \<or> 0xBF < s2)"
    using assms(4-9) by simp_all
  have n: "(c0 # c1 # c2 # r) ! 0 = c0" "(c0 # c1 # c2 # r) ! 1 = c1" "(c0 # c1 # c2 # r) ! 2 = c2"
    by simp_all
  show ?thesis
    unfolding decodeRune_def Let_def n
    by (simp only: assms(1-3) [symmetric] f c if_False if_True) simp
qed

lemma decodeRune_4:
  fixes s0 s1 s2 s3 :: int
  assumes "s0 = of_char c0" "s1 = of_char c1" "s2 = of_char c2" "s3 = of_char c3"
    "0xF0 \<le> s0" "s0 \<le> 0xF4" "acceptLo s0 \<le> s1" "s1 \<le> acceptHi s0" "0x80 \<le> s2" "s2 \<le> 0xBF"
    "0x80 \<le> s3" "s3 \<le> 0xBF"
  shows "decodeRune (c0 # c1 # c2 # c3 # r) =
    ((s0 mod 8) * 262144 + (s1 mod 64) * 4096 + (s2 mod 64) * 64 + s3 mod 64, 4)"
proof -
  have f: "firstSize s0 = 4"
    using assms(5,6) by (simp add: firstSize_def)
  have c: "\<not> s0 < 0x80" "\<not> (s0 < 0xC2 \<or> 0xF4 < s0)" "\<not> (s1 < acceptLo s0 \<or> acceptHi s0 < s1)"
    "\<not> (s2 < 0x80 \<or> 0xBF < s2)" "\<not> (s3 < 0x80 \<or> 0xBF < s3)"
    using assms(5-12) by simp_all
  have n: "(c0 # c1 # c2 # c3 # r) ! 0 = c0" "(c0 # c1 # c2 # c3 # r) ! 1 = c1"
    "(c0 # c1 # c2 # c3 # r) ! 2 = c2" "(c0 # c1 # c2 # c3 # r) ! 3 = c3"
    by simp_all
  show ?thesis
    unfolding decodeRune_def Let_def n
    by (simp only: assms(1-4) [symmetric] f c if_False if_True) simp
qed

lemma encodeRune_2:
  "0x80 \<le> x \<Longrightarrow> x \<le> 0x7FF \<Longrightarrow>
     encodeRune x = [char_of (0xC0 + x div 64), char_of (0x80 + x mod 64)]"
  unfolding encodeRune_def by simp

lemma encodeRune_3:
  "0x800 \<le> x \<Longrightarrow> x \<le> 0xFFFF \<Longrightarrow> x < 0xD800 \<or> 0xDFFF < x \<Longrightarrow>
     encodeRune x =
       [char_of (0xE0 + x div 4096), char_of (0x80 + (x div 64) mod 64), char_of (0x80 + x mod 64)]"
  unfolding encodeRune_def by auto

lemma encodeRune_4:
  "0x10000 \<le> x \<Longrightarrow> x \<le> 0x10FFFF \<Longrightarrow>
     encodeRune x =
       [char_of (0xF0 + x div 262144), char_of (0x80 + (x div 4096) mod 64),
        char_of (0x80 + (x div 64) mod 64), char_of (0x80 + x mod 64)]"
  unfolding encodeRune_def by simp

lemma roundtrip_2:
  assumes "byteIn 0xC2 0xDF c0" "byteIn 0x80 0xBF c1"
  shows "\<exists>x. decodeRune (c0 # c1 # r) = (x, 2) \<and> encodeRune x = [c0, c1]"
proof -
  define s0 s1 :: int where "s0 = of_char c0" and "s1 = of_char c1"
  define a b where "a = s0 - 192" and "b = s1 - 128"
  have r0: "0xC2 \<le> s0" "s0 \<le> 0xDF" and r1: "0x80 \<le> s1" "s1 \<le> 0xBF"
    using assms by (simp_all add: byteIn_def s0_def s1_def)
  have a: "0 \<le> a" "a < 32" "2 \<le> a" and b: "0 \<le> b" "b < 64"
    using r0 r1 by (simp_all add: a_def b_def)
  have "s0 = 6 * 32 + a" "s1 = 2 * 64 + b"
    by (simp_all add: a_def b_def)
  then have m: "s0 mod 32 = a" "s1 mod 64 = b"
    using mod_offset [OF a(1,2), of 6] mod_offset [OF b, of 2] by simp_all
  have dec: "decodeRune (c0 # c1 # r) = (a * 64 + b, 2)"
    using decodeRune_2 [OF s0_def s1_def r0 r1, of r] by (simp only: m)
  have rng: "0x80 \<le> a * 64 + b" "a * 64 + b \<le> 0x7FF"
    using a b by simp_all
  have bk: "0xC0 + a = s0" "0x80 + b = s1"
    by (simp_all add: a_def b_def)
  have "encodeRune (a * 64 + b) = [char_of (0xC0 + a), char_of (0x80 + b)]"
    using encodeRune_2 [OF rng] by (simp only: pack2 [OF b])
  also have "\<dots> = [c0, c1]"
    by (simp only: bk) (simp add: s0_def s1_def)
  finally show ?thesis
    using dec by blast
qed

lemma roundtrip_3:
  assumes "byteIn 0xE0 0xEF c0"
    "byteIn (if c0 = CHR 0xE0 then 0xA0 else 0x80) (if c0 = CHR 0xED then 0x9F else 0xBF) c1"
    "byteIn 0x80 0xBF c2"
  shows "\<exists>x. decodeRune (c0 # c1 # c2 # r) = (x, 3) \<and> encodeRune x = [c0, c1, c2]"
proof -
  define s0 s1 s2 :: int where "s0 = of_char c0" and "s1 = of_char c1" and "s2 = of_char c2"
  define a b c where "a = s0 - 224" and "b = s1 - 128" and "c = s2 - 128"
  have e0: "c0 = CHR 0xE0 \<longleftrightarrow> s0 = 0xE0" "c0 = CHR 0xED \<longleftrightarrow> s0 = 0xED"
    unfolding s0_def by (subst char_eq_iff_int, simp)+
  have r0: "0xE0 \<le> s0" "s0 \<le> 0xEF" and r2: "0x80 \<le> s2" "s2 \<le> 0xBF"
    using assms(1,3) by (simp_all add: byteIn_def s0_def s2_def)
  have r1: "acceptLo s0 \<le> s1" "s1 \<le> acceptHi s0"
    using assms(2) r0 unfolding byteIn_def e0 s1_def [symmetric] acceptLo_def acceptHi_def
    by (simp_all split: if_splits)
  have r1': "0x80 \<le> s1" "s1 \<le> 0xBF" "s0 = 0xE0 \<longrightarrow> 0xA0 \<le> s1" "s0 = 0xED \<longrightarrow> s1 \<le> 0x9F"
    using r1 by (simp_all add: acceptLo_def acceptHi_def split: if_splits)
  have a: "0 \<le> a" "a < 16" and b: "0 \<le> b" "b < 64" and c: "0 \<le> c" "c < 64"
    using r0 r1' r2 by (simp_all add: a_def b_def c_def)
  have lo: "a = 0 \<longrightarrow> 32 \<le> b" and hi: "a = 13 \<longrightarrow> b < 32"
    using r1' by (auto simp: a_def b_def)
  have "s0 = 14 * 16 + a" "s1 = 2 * 64 + b" "s2 = 2 * 64 + c"
    by (simp_all add: a_def b_def c_def)
  then have m: "s0 mod 16 = a" "s1 mod 64 = b" "s2 mod 64 = c"
    using mod_offset [OF a, of 14] mod_offset [OF b, of 2] mod_offset [OF c, of 2] by simp_all
  let ?x = "a * 4096 + b * 64 + c"
  have dec: "decodeRune (c0 # c1 # c2 # r) = (?x, 3)"
    using decodeRune_3 [OF s0_def s1_def s2_def r0 r1 r2, of r] by (simp only: m)
  have rng: "0x800 \<le> ?x" "?x \<le> 0xFFFF"
    using a b c lo by linarith+
  consider "a \<le> 12" | "a = 13" | "14 \<le> a"
    by linarith
  then have sur: "?x < 0xD800 \<or> 0xDFFF < ?x"
    using b c hi by cases linarith+
  note rng = rng sur
  have bk: "0xE0 + a = s0" "0x80 + b = s1" "0x80 + c = s2"
    by (simp_all add: a_def b_def c_def)
  have "encodeRune ?x = [char_of (0xE0 + a), char_of (0x80 + b), char_of (0x80 + c)]"
    using encodeRune_3 [OF rng] by (simp only: pack3 [OF b c])
  also have "\<dots> = [c0, c1, c2]"
    by (simp only: bk) (simp add: s0_def s1_def s2_def)
  finally show ?thesis
    using dec by blast
qed

lemma roundtrip_4:
  assumes "byteIn 0xF0 0xF4 c0"
    "byteIn (if c0 = CHR 0xF0 then 0x90 else 0x80) (if c0 = CHR 0xF4 then 0x8F else 0xBF) c1"
    "byteIn 0x80 0xBF c2" "byteIn 0x80 0xBF c3"
  shows "\<exists>x. decodeRune (c0 # c1 # c2 # c3 # r) = (x, 4) \<and> encodeRune x = [c0, c1, c2, c3]"
proof -
  define s0 s1 s2 s3 :: int
    where "s0 = of_char c0" and "s1 = of_char c1" and "s2 = of_char c2" and "s3 = of_char c3"
  define a b c d where "a = s0 - 240" and "b = s1 - 128" and "c = s2 - 128" and "d = s3 - 128"
  have e0: "c0 = CHR 0xF0 \<longleftrightarrow> s0 = 0xF0" "c0 = CHR 0xF4 \<longleftrightarrow> s0 = 0xF4"
    unfolding s0_def by (subst char_eq_iff_int, simp)+
  have r0: "0xF0 \<le> s0" "s0 \<le> 0xF4" and r2: "0x80 \<le> s2" "s2 \<le> 0xBF"
    and r3: "0x80 \<le> s3" "s3 \<le> 0xBF"
    using assms(1,3,4) by (simp_all add: byteIn_def s0_def s2_def s3_def)
  have r1: "acceptLo s0 \<le> s1" "s1 \<le> acceptHi s0"
    using assms(2) r0 unfolding byteIn_def e0 s1_def [symmetric] acceptLo_def acceptHi_def
    by (simp_all split: if_splits)
  have r1': "0x80 \<le> s1" "s1 \<le> 0xBF" "s0 = 0xF0 \<longrightarrow> 0x90 \<le> s1" "s0 = 0xF4 \<longrightarrow> s1 \<le> 0x8F"
    using r1 by (simp_all add: acceptLo_def acceptHi_def split: if_splits)
  have a: "0 \<le> a" "a < 8" "a \<le> 4" and b: "0 \<le> b" "b < 64" and c: "0 \<le> c" "c < 64"
    and d: "0 \<le> d" "d < 64"
    using r0 r1' r2 r3 by (simp_all add: a_def b_def c_def d_def)
  have lo: "a = 0 \<longrightarrow> 16 \<le> b" and hi: "a = 4 \<longrightarrow> b < 16"
    using r1' by (auto simp: a_def b_def)
  have "s0 = 30 * 8 + a" "s1 = 2 * 64 + b" "s2 = 2 * 64 + c" "s3 = 2 * 64 + d"
    by (simp_all add: a_def b_def c_def d_def)
  then have m: "s0 mod 8 = a" "s1 mod 64 = b" "s2 mod 64 = c" "s3 mod 64 = d"
    using mod_offset [OF a(1,2), of 30] mod_offset [OF b, of 2] mod_offset [OF c, of 2]
      mod_offset [OF d, of 2] by simp_all
  let ?x = "a * 262144 + b * 4096 + c * 64 + d"
  have dec: "decodeRune (c0 # c1 # c2 # c3 # r) = (?x, 4)"
    using decodeRune_4 [OF s0_def s1_def s2_def s3_def r0 r1 r2 r3, of r] by (simp only: m)
  have rng: "0x10000 \<le> ?x" "?x \<le> 0x10FFFF"
    using a b c d lo hi by linarith+
  have bk: "0xF0 + a = s0" "0x80 + b = s1" "0x80 + c = s2" "0x80 + d = s3"
    by (simp_all add: a_def b_def c_def d_def)
  have "encodeRune ?x =
      [char_of (0xF0 + a), char_of (0x80 + b), char_of (0x80 + c), char_of (0x80 + d)]"
    using encodeRune_4 [OF rng] by (simp only: pack4 [OF b c d])
  also have "\<dots> = [c0, c1, c2, c3]"
    by (simp only: bk) (simp add: s0_def s1_def s2_def s3_def)
  finally show ?thesis
    using dec by blast
qed

lemma encodeRune_RuneError: "encodeRune RuneError = [CHR 0xEF, CHR 0xBF, CHR 0xBD]"
  by code_simp

text \<open>The ways in which the decoder gives up on the byte at the head.\<close>

lemma decodeRune_bad_lead:
  "s \<noteq> [] \<Longrightarrow> 0x80 \<le> (of_char (s ! 0) :: int) \<Longrightarrow>
   (of_char (s ! 0) :: int) < 0xC2 \<or> 0xF4 < (of_char (s ! 0) :: int) \<Longrightarrow>
     decodeRune s = (RuneError, 1)"
  by (cases s) (simp_all add: decodeRune_def Let_def)

lemma decodeRune_short:
  "s \<noteq> [] \<Longrightarrow> 0xC2 \<le> (of_char (s ! 0) :: int) \<Longrightarrow> (of_char (s ! 0) :: int) \<le> 0xF4 \<Longrightarrow>
   length s < firstSize (of_char (s ! 0)) \<Longrightarrow>
     decodeRune s = (RuneError, 1)"
  by (cases s) (simp_all add: decodeRune_def Let_def)

lemma decodeRune_bad_s1:
  "s \<noteq> [] \<Longrightarrow> 0xC2 \<le> (of_char (s ! 0) :: int) \<Longrightarrow> (of_char (s ! 0) :: int) \<le> 0xF4 \<Longrightarrow>
   (of_char (s ! 1) :: int) < acceptLo (of_char (s ! 0))
     \<or> acceptHi (of_char (s ! 0)) < (of_char (s ! 1) :: int) \<Longrightarrow>
     decodeRune s = (RuneError, 1)"
  by (cases s) (simp_all add: decodeRune_def Let_def)

lemma decodeRune_bad_s2:
  "s \<noteq> [] \<Longrightarrow> 0xE0 \<le> (of_char (s ! 0) :: int) \<Longrightarrow> (of_char (s ! 0) :: int) \<le> 0xF4 \<Longrightarrow>
   (of_char (s ! 2) :: int) < 0x80 \<or> 0xBF < (of_char (s ! 2) :: int) \<Longrightarrow>
     decodeRune s = (RuneError, 1)"
  by (cases s) (simp_all add: decodeRune_def Let_def firstSize_def)

lemma decodeRune_bad_s3:
  "s \<noteq> [] \<Longrightarrow> 0xF0 \<le> (of_char (s ! 0) :: int) \<Longrightarrow> (of_char (s ! 0) :: int) \<le> 0xF4 \<Longrightarrow>
   (of_char (s ! 3) :: int) < 0x80 \<or> 0xBF < (of_char (s ! 3) :: int) \<Longrightarrow>
     decodeRune s = (RuneError, 1)"
  by (cases s) (simp_all add: decodeRune_def Let_def firstSize_def)

lemma lead_char_eq:
  "c0 = CHR 0xE0 \<longleftrightarrow> (of_char c0 :: int) = 0xE0" "c0 = CHR 0xED \<longleftrightarrow> (of_char c0 :: int) = 0xED"
  "c0 = CHR 0xF0 \<longleftrightarrow> (of_char c0 :: int) = 0xF0" "c0 = CHR 0xF4 \<longleftrightarrow> (of_char c0 :: int) = 0xF4"
  by (subst char_eq_iff_int, simp)+

lemma accept_spec:
  "0xC2 \<le> (of_char c0 :: int) \<Longrightarrow> (of_char c0 :: int) \<le> 0xDF \<Longrightarrow>
     acceptLo (of_char c0) = 0x80 \<and> acceptHi (of_char c0) = 0xBF"
  "0xE0 \<le> (of_char c0 :: int) \<Longrightarrow> (of_char c0 :: int) \<le> 0xEF \<Longrightarrow>
     acceptLo (of_char c0) = (if c0 = CHR 0xE0 then 0xA0 else 0x80) \<and>
     acceptHi (of_char c0) = (if c0 = CHR 0xED then 0x9F else 0xBF)"
  "0xF0 \<le> (of_char c0 :: int) \<Longrightarrow> (of_char c0 :: int) \<le> 0xF4 \<Longrightarrow>
     acceptLo (of_char c0) = (if c0 = CHR 0xF0 then 0x90 else 0x80) \<and>
     acceptHi (of_char c0) = (if c0 = CHR 0xF4 then 0x8F else 0xBF)"
  unfolding lead_char_eq acceptLo_def acceptHi_def by auto

text \<open>
  Where a well-formed sequence starts at the head, the decoder reads exactly
  that sequence and the encoder writes it back.
\<close>

lemma head_positive:
  assumes "spec_headLen (c0 # r) \<noteq> 0"
  shows "\<exists>x. decodeRune (c0 # r) = (x, spec_headLen (c0 # r)) \<and>
             encodeRune x = take (spec_headLen (c0 # r)) (c0 # r)"
proof -
  define A where "A \<longleftrightarrow> byteIn 0x00 0x7F c0"
  define B where "B \<longleftrightarrow> byteIn 0xC2 0xDF c0 \<and> 1 \<le> length r \<and> byteIn 0x80 0xBF (r ! 0)"
  define C where "C \<longleftrightarrow> byteIn 0xE0 0xEF c0 \<and> 2 \<le> length r
           \<and> byteIn (if c0 = CHR 0xE0 then 0xA0 else 0x80) (if c0 = CHR 0xED then 0x9F else 0xBF) (r ! 0)
           \<and> byteIn 0x80 0xBF (r ! 1)"
  define D where "D \<longleftrightarrow> byteIn 0xF0 0xF4 c0 \<and> 3 \<le> length r
           \<and> byteIn (if c0 = CHR 0xF0 then 0x90 else 0x80) (if c0 = CHR 0xF4 then 0x8F else 0xBF) (r ! 0)
           \<and> byteIn 0x80 0xBF (r ! 1) \<and> byteIn 0x80 0xBF (r ! 2)"
  have h: "spec_headLen (c0 # r) = (if A then 1 else if B then 2 else if C then 3 else if D then 4 else 0)"
    unfolding A_def B_def C_def D_def by (rule spec_headLen.simps(2))
  consider (a) A | (b) "\<not> A" B | (c) "\<not> A" "\<not> B" C | (d) "\<not> A" "\<not> B" "\<not> C" D
    | (none) "\<not> A" "\<not> B" "\<not> C" "\<not> D"
    by blast
  then show ?thesis
  proof cases
    case a
    then have n: "spec_headLen (c0 # r) = 1"
      unfolding h by simp
    from a have "byteIn 0x00 0x7F c0"
      unfolding A_def .
    from decode_encode_1 [OF this] show ?thesis
      unfolding n by simp
  next
    case b
    then have n: "spec_headLen (c0 # r) = 2"
      unfolding h by simp
    note b2 = b(2) [unfolded B_def]
    from b2 obtain c1 r' where r: "r = c1 # r'"
      by (cases r) auto
    with b2 have "byteIn 0xC2 0xDF c0" "byteIn 0x80 0xBF c1"
      by simp_all
    from roundtrip_2 [OF this, of r'] show ?thesis
      unfolding n by (simp add: r)
  next
    case c
    then have n: "spec_headLen (c0 # r) = 3"
      unfolding h by simp
    note c3 = c(3) [unfolded C_def]
    from c3 obtain c1 c2 r' where r: "r = c1 # c2 # r'"
      by (cases r; cases "tl r") auto
    with c3 have "byteIn 0xE0 0xEF c0"
      "byteIn (if c0 = CHR 0xE0 then 0xA0 else 0x80) (if c0 = CHR 0xED then 0x9F else 0xBF) c1"
      "byteIn 0x80 0xBF c2"
      by simp_all
    from roundtrip_3 [OF this, of r'] show ?thesis
      unfolding n by (simp add: r)
  next
    case d
    then have n: "spec_headLen (c0 # r) = 4"
      unfolding h by simp
    note d4 = d(4) [unfolded D_def]
    from d4 obtain c1 c2 c3 r' where r: "r = c1 # c2 # c3 # r'"
      by (cases r; cases "tl r"; cases "tl (tl r)") auto
    with d4 have "byteIn 0xF0 0xF4 c0"
      "byteIn (if c0 = CHR 0xF0 then 0x90 else 0x80) (if c0 = CHR 0xF4 then 0x8F else 0xBF) c1"
      "byteIn 0x80 0xBF c2" "byteIn 0x80 0xBF c3"
      by simp_all
    from roundtrip_4 [OF this, of r'] show ?thesis
      unfolding n by (simp add: r)
  next
    case none
    then have "spec_headLen (c0 # r) = 0"
      unfolding h by simp
    with assms show ?thesis
      by simp
  qed
qed

text \<open>Where no well-formed sequence starts at the head, the decoder reads \<open>RuneError\<close> of width 1.\<close>

lemma head_negative:
  assumes "spec_headLen (c0 # r) = 0"
  shows "decodeRune (c0 # r) = (RuneError, 1)"
proof -
  let ?s = "c0 # r"
  define s0 :: int where "s0 = of_char c0"
  define A where "A \<longleftrightarrow> byteIn 0x00 0x7F c0"
  define B where "B \<longleftrightarrow> byteIn 0xC2 0xDF c0 \<and> 1 \<le> length r \<and> byteIn 0x80 0xBF (r ! 0)"
  define C where "C \<longleftrightarrow> byteIn 0xE0 0xEF c0 \<and> 2 \<le> length r
           \<and> byteIn (if c0 = CHR 0xE0 then 0xA0 else 0x80) (if c0 = CHR 0xED then 0x9F else 0xBF) (r ! 0)
           \<and> byteIn 0x80 0xBF (r ! 1)"
  define D where "D \<longleftrightarrow> byteIn 0xF0 0xF4 c0 \<and> 3 \<le> length r
           \<and> byteIn (if c0 = CHR 0xF0 then 0x90 else 0x80) (if c0 = CHR 0xF4 then 0x8F else 0xBF) (r ! 0)
           \<and> byteIn 0x80 0xBF (r ! 1) \<and> byteIn 0x80 0xBF (r ! 2)"
  have h: "spec_headLen (c0 # r) = (if A then 1 else if B then 2 else if C then 3 else if D then 4 else 0)"
    unfolding A_def B_def C_def D_def by (rule spec_headLen.simps(2))
  from assms have "\<not> A" "\<not> B" "\<not> C" "\<not> D"
    unfolding h by (simp_all split: if_splits)
  then have no: "\<not> byteIn 0x00 0x7F c0"
    "\<not> (byteIn 0xC2 0xDF c0 \<and> 1 \<le> length r \<and> byteIn 0x80 0xBF (r ! 0))"
    "\<not> (byteIn 0xE0 0xEF c0 \<and> 2 \<le> length r
           \<and> byteIn (if c0 = CHR 0xE0 then 0xA0 else 0x80) (if c0 = CHR 0xED then 0x9F else 0xBF) (r ! 0)
           \<and> byteIn 0x80 0xBF (r ! 1))"
    "\<not> (byteIn 0xF0 0xF4 c0 \<and> 3 \<le> length r
           \<and> byteIn (if c0 = CHR 0xF0 then 0x90 else 0x80) (if c0 = CHR 0xF4 then 0x8F else 0xBF) (r ! 0)
           \<and> byteIn 0x80 0xBF (r ! 1) \<and> byteIn 0x80 0xBF (r ! 2))"
    unfolding A_def B_def C_def D_def .
  have ne: "?s \<noteq> []"
    by simp
  have nth: "?s ! 0 = c0" "?s ! 1 = r ! 0" "?s ! 2 = r ! 1" "?s ! 3 = r ! 2"
    by simp_all
  have hi: "0x80 \<le> s0"
    using no(1) of_char_int_range(1) [of c0] by (simp add: byteIn_def s0_def)
  note bad_lead = decodeRune_bad_lead [OF ne, unfolded nth, folded s0_def]
  note short = decodeRune_short [OF ne, unfolded nth, folded s0_def]
  note bad_s1 = decodeRune_bad_s1 [OF ne, unfolded nth, folded s0_def]
  note bad_s2 = decodeRune_bad_s2 [OF ne, unfolded nth, folded s0_def]
  note bad_s3 = decodeRune_bad_s3 [OF ne, unfolded nth, folded s0_def]
  consider (lead) "s0 < 0xC2 \<or> 0xF4 < s0" | (two) "0xC2 \<le> s0" "s0 \<le> 0xDF"
    | (three) "0xE0 \<le> s0" "s0 \<le> 0xEF" | (four) "0xF0 \<le> s0" "s0 \<le> 0xF4"
    by linarith
  then show ?thesis
  proof cases
    case lead
    with hi show ?thesis
      by (intro bad_lead)
  next
    case two
    then have b: "byteIn 0xC2 0xDF c0"
      by (simp add: byteIn_def s0_def)
    have f: "firstSize s0 = 2"
      using two by (simp add: firstSize_def)
    have acc: "acceptLo s0 = 0x80" "acceptHi s0 = 0xBF"
      using accept_spec(1) [of c0] two by (simp_all add: s0_def)
    show ?thesis
    proof (cases "1 \<le> length r")
      case False
      then have "length ?s < firstSize s0"
        unfolding f by (cases r) simp_all
      with two show ?thesis
        by (intro short) simp_all
    next
      case True
      with no(2) b have "\<not> byteIn 0x80 0xBF (r ! 0)"
        by simp
      then have "(of_char (r ! 0) :: int) < acceptLo s0 \<or> acceptHi s0 < (of_char (r ! 0) :: int)"
        unfolding acc by (auto simp: byteIn_def)
      with two show ?thesis
        by (intro bad_s1) simp_all
    qed
  next
    case three
    then have b: "byteIn 0xE0 0xEF c0"
      by (simp add: byteIn_def s0_def)
    have f: "firstSize s0 = 3"
      using three by (simp add: firstSize_def)
    have acc: "acceptLo s0 = (if c0 = CHR 0xE0 then 0xA0 else 0x80)"
      "acceptHi s0 = (if c0 = CHR 0xED then 0x9F else 0xBF)"
      using accept_spec(2) [of c0] three by (simp_all add: s0_def)
    show ?thesis
    proof (cases "2 \<le> length r")
      case False
      then have "length ?s < firstSize s0"
        unfolding f by simp
      with three show ?thesis
        by (intro short) simp_all
    next
      case True
      show ?thesis
      proof (cases "byteIn (acceptLo s0) (acceptHi s0) (r ! 0)")
        case False
        then have "(of_char (r ! 0) :: int) < acceptLo s0 \<or> acceptHi s0 < (of_char (r ! 0) :: int)"
          by (auto simp: byteIn_def)
        with three show ?thesis
          by (intro bad_s1) simp_all
      next
        case ok: True
        with no(3) b True have "\<not> byteIn 0x80 0xBF (r ! 1)"
          unfolding acc by simp
        then have "(of_char (r ! 1) :: int) < 0x80 \<or> 0xBF < (of_char (r ! 1) :: int)"
          by (auto simp: byteIn_def)
        with three show ?thesis
          by (intro bad_s2) simp_all
      qed
    qed
  next
    case four
    then have b: "byteIn 0xF0 0xF4 c0"
      by (simp add: byteIn_def s0_def)
    have f: "firstSize s0 = 4"
      using four by (simp add: firstSize_def)
    have acc: "acceptLo s0 = (if c0 = CHR 0xF0 then 0x90 else 0x80)"
      "acceptHi s0 = (if c0 = CHR 0xF4 then 0x8F else 0xBF)"
      using accept_spec(3) [of c0] four by (simp_all add: s0_def)
    show ?thesis
    proof (cases "3 \<le> length r")
      case False
      then have "length ?s < firstSize s0"
        unfolding f by simp
      with four show ?thesis
        by (intro short) simp_all
    next
      case True
      show ?thesis
      proof (cases "byteIn (acceptLo s0) (acceptHi s0) (r ! 0)")
        case False
        then have "(of_char (r ! 0) :: int) < acceptLo s0 \<or> acceptHi s0 < (of_char (r ! 0) :: int)"
          by (auto simp: byteIn_def)
        with four show ?thesis
          by (intro bad_s1) simp_all
      next
        case ok: True
        show ?thesis
        proof (cases "byteIn 0x80 0xBF (r ! 1)")
          case False
          then have "(of_char (r ! 1) :: int) < 0x80 \<or> 0xBF < (of_char (r ! 1) :: int)"
            by (auto simp: byteIn_def)
          with four show ?thesis
            by (intro bad_s2) simp_all
        next
          case ok2: True
          with no(4) b True ok have "\<not> byteIn 0x80 0xBF (r ! 2)"
            unfolding acc by simp
          then have "(of_char (r ! 2) :: int) < 0x80 \<or> 0xBF < (of_char (r ! 2) :: int)"
            by (auto simp: byteIn_def)
          with four show ?thesis
            by (intro bad_s3) simp_all
        qed
      qed
    qed
  qed
qed

text \<open>
  Reading a string rune by rune and writing the runes back keeps every
  well-formed sequence and replaces every other byte by U+FFFD.
\<close>

lemma reencode: "encodeRunes (runes s) = spec_replaceIllFormed s"
proof (induction "length s" arbitrary: s rule: less_induct)
  case less
  show ?case
  proof (cases s)
    case Nil
    then show ?thesis by simp
  next
    case (Cons c0 r)
    define n where "n = spec_headLen (c0 # r)"
    have st: "runes (c0 # r)
        = fst (decodeRune (c0 # r)) # runes (drop (snd (decodeRune (c0 # r)) - 1) r)"
      by simp
    have "encodeRunes (runes (c0 # r)) = spec_replaceIllFormed (c0 # r)"
    proof (cases "n = 0")
      case True
      then have d: "decodeRune (c0 # r) = (RuneError, 1)"
        unfolding n_def by (rule head_negative)
      have IH: "encodeRunes (runes r) = spec_replaceIllFormed r"
        using Cons by (intro less.hyps) simp
      have "runes (c0 # r) = RuneError # runes r"
        unfolding st d by simp
      then have "encodeRunes (runes (c0 # r)) = [CHR 0xEF, CHR 0xBF, CHR 0xBD] @ spec_replaceIllFormed r"
        by (simp add: encodeRune_RuneError IH del: runes.simps)
      also have "\<dots> = spec_replaceIllFormed (c0 # r)"
        using True unfolding n_def by simp
      finally show ?thesis .
    next
      case False
      then obtain x where d: "decodeRune (c0 # r) = (x, n)" and e: "encodeRune x = take n (c0 # r)"
        using head_positive [of c0 r] unfolding n_def by auto
      have IH: "encodeRunes (runes (drop (n - 1) r)) = spec_replaceIllFormed (drop (n - 1) r)"
        using Cons by (intro less.hyps) simp
      have "runes (c0 # r) = x # runes (drop (n - 1) r)"
        unfolding st d by simp
      with IH have "encodeRunes (runes (c0 # r))
          = take n (c0 # r) @ spec_replaceIllFormed (drop (n - 1) r)"
        by (simp add: e del: runes.simps)
      also have "\<dots> = spec_replaceIllFormed (c0 # r)"
        using False unfolding n_def by simp
      finally show ?thesis .
    qed
    then show ?thesis
      unfolding Cons .
  qed
qed

lemma wellFormed_replace: "spec_wellFormedUTF8 s \<Longrightarrow> spec_replaceIllFormed s = s"
proof (induction "length s" arbitrary: s rule: less_induct)
  case less
  show ?case
  proof (cases s)
    case Nil
    then show ?thesis by simp
  next
    case (Cons c0 r)
    define n where "n = spec_headLen (c0 # r)"
    from less.prems have n: "n \<noteq> 0" and w: "spec_wellFormedUTF8 (drop (n - 1) r)"
      unfolding Cons n_def by simp_all
    have "spec_replaceIllFormed (drop (n - 1) r) = drop (n - 1) r"
      using Cons w by (intro less.hyps) simp_all
    moreover have "drop n s = drop (n - 1) r"
      using n unfolding Cons by (cases n) simp_all
    moreover have "spec_replaceIllFormed s = take n s @ spec_replaceIllFormed (drop (n - 1) r)"
      using n unfolding Cons n_def by simp
    ultimately show ?thesis
      by (metis append_take_drop_id)
  qed
qed

text \<open>In particular, well-formed UTF-8 is read and written back unchanged.\<close>

lemma wellFormed_reencode: "spec_wellFormedUTF8 s \<Longrightarrow> encodeRunes (runes s) = s"
  by (simp add: reencode wellFormed_replace)

section \<open>Color resolution\<close>

lemmas tables = LowColors_def HighColors_def GrayscaleColors_def CubeColors_def

lemma table_lengths:
  "length LowColors = 8" "length HighColors = 8" "length CubeColors = 6"
  "length GrayscaleColors = 24"
  by (simp_all add: tables)

lemma cube_bounds:
  fixes c :: int
  assumes "16 \<le> c" "c \<le> 231"
  shows "0 \<le> (c - 16) div 36" "(c - 16) div 36 < 6"
    "0 \<le> (c - 16 - 36 * ((c - 16) div 36)) div 6"
    "(c - 16 - 36 * ((c - 16) div 36)) div 6 < 6"
    "0 \<le> c - 16 - 36 * ((c - 16) div 36) - 6 * ((c - 16 - 36 * ((c - 16) div 36)) div 6)"
    "c - 16 - 36 * ((c - 16) div 36) - 6 * ((c - 16 - 36 * ((c - 16) div 36)) div 6) < 6"
proof -
  define r where "r = (c - 16) div 36"
  define s where "s = c - 16 - 36 * r"
  have r: "0 \<le> r" "r < 6"
    using assms unfolding r_def by simp_all
  have s: "0 \<le> s" "s < 36"
    unfolding s_def r_def using assms by (simp_all add: minus_mult_div_eq_mod)
  show "0 \<le> (c - 16) div 36" "(c - 16) div 36 < 6"
    using r unfolding r_def by simp_all
  have g: "0 \<le> s div 6" "s div 6 < 6"
    using s by simp_all
  show "0 \<le> (c - 16 - 36 * ((c - 16) div 36)) div 6"
    "(c - 16 - 36 * ((c - 16) div 36)) div 6 < 6"
    using g unfolding s_def r_def by simp_all
  have "s - 6 * (s div 6) = s mod 6"
    by (simp add: minus_mult_div_eq_mod)
  then have "0 \<le> s - 6 * (s div 6)" "s - 6 * (s div 6) < 6"
    by simp_all
  then show
    "0 \<le> c - 16 - 36 * ((c - 16) div 36) - 6 * ((c - 16 - 36 * ((c - 16) div 36)) div 6)"
    "c - 16 - 36 * ((c - 16) div 36) - 6 * ((c - 16 - 36 * ((c - 16) div 36)) div 6) < 6"
    unfolding s_def r_def by simp_all
qed

text \<open>Under the guard of its branch every table index of \<open>color8bit\<close> is in range.\<close>

lemma color8bit_indices:
  "(0 \<le> c \<and> c \<le> 7 \<longrightarrow> nat c < length LowColors) \<and>
   (8 \<le> c \<and> c \<le> 15 \<longrightarrow> nat (c - 8) < length HighColors) \<and>
   (16 \<le> c \<and> c \<le> 231 \<longrightarrow>
      nat ((c - 16) div 36) < length CubeColors \<and>
      nat ((c - 16 - 36 * ((c - 16) div 36)) div 6) < length CubeColors \<and>
      nat (c - 16 - 36 * ((c - 16) div 36) - 6 * ((c - 16 - 36 * ((c - 16) div 36)) div 6))
        < length CubeColors) \<and>
   (232 \<le> c \<and> c \<le> 255 \<longrightarrow> nat (c - 232) < length GrayscaleColors)"
  unfolding table_lengths
proof (intro conjI impI)
  assume "16 \<le> c \<and> c \<le> 231"
  then have c: "16 \<le> c" "c \<le> 231" by simp_all
  show "nat ((c - 16) div 36) < 6"
    using cube_bounds(1,2) [OF c] by linarith
  show "nat ((c - 16 - 36 * ((c - 16) div 36)) div 6) < 6"
    using cube_bounds(3,4) [OF c] by linarith
  show "nat (c - 16 - 36 * ((c - 16) div 36) - 6 * ((c - 16 - 36 * ((c - 16) div 36)) div 6)) < 6"
    using cube_bounds(5,6) [OF c] by linarith
qed linarith+

section \<open>The SGR command loop\<close>

lemma applyCodes_end: "length codes \<le> i \<Longrightarrow> applyCodes codes i p = Inr p"
  by (subst applyCodes.simps) simp

lemma applyCodes_38_5:
  "i + 2 < length codes \<Longrightarrow> codes ! i = 38 \<Longrightarrow> codes ! (i + 1) = 5 \<Longrightarrow>
     applyCodes codes i p = applyCodes codes (i + 3) (p\<lparr>p_fg := color8bit (codes ! (i + 2))\<rparr>)"
  by (subst applyCodes.simps) simp

lemma applyCodes_48_5:
  "i + 2 < length codes \<Longrightarrow> codes ! i = 48 \<Longrightarrow> codes ! (i + 1) = 5 \<Longrightarrow>
     applyCodes codes i p = applyCodes codes (i + 3) (p\<lparr>p_bg := color8bit (codes ! (i + 2))\<rparr>)"
  by (subst applyCodes.simps) simp

lemma applyCodes_38_48_short:
  "i < length codes \<Longrightarrow> codes ! i = 38 \<or> codes ! i = 48 \<Longrightarrow> length codes < i + 3 \<Longrightarrow>
     applyCodes codes i p = Inl parseError"
  by (subst applyCodes.simps) auto

lemma applyCodes_38_48_not5:
  "i + 2 < length codes \<Longrightarrow> codes ! i = 38 \<or> codes ! i = 48 \<Longrightarrow> codes ! (i + 1) \<noteq> 5 \<Longrightarrow>
     applyCodes codes i p = applyCodes codes (i + 2) p"
  by (subst applyCodes.simps) auto

text \<open>The command loop writes the three style fields only.\<close>

lemma applyCodes_style_only:
  "applyCodes codes i p = Inr p' \<Longrightarrow>
     p'\<lparr>p_bg := [], p_fg := [], p_bold := False\<rparr> = p\<lparr>p_bg := [], p_fg := [], p_bold := False\<rparr>"
proof (induction "length codes - i" arbitrary: i p rule: less_induct)
  case less
  show ?case
  proof (cases "i < length codes")
    case False
    with less.prems show ?thesis
      by (simp add: applyCodes_end)
  next
    case True
    have IH: "p'\<lparr>p_bg := [], p_fg := [], p_bold := False\<rparr> = q\<lparr>p_bg := [], p_fg := [], p_bold := False\<rparr>"
      if "applyCodes codes j q = Inr p'" "i < j" for j q
      using less.hyps [of j q] that True by simp
    have "applyCodes codes i p = Inr p'"
      by (rule less.prems)
    then show ?thesis
      apply (subst (asm) applyCodes.simps)
      apply (simp add: True split: if_splits)
                apply (drule IH, simp, simp)+
      done
  qed
qed


lemma applyCodes_frame:
  assumes "applyCodes codes i p = Inr p'"
  shows "p_ts p' = p_ts p" "p_b p' = p_b p" "p_c p' = p_c p" "p_state p' = p_state p"
proof -
  let ?e = "\<lambda>q :: parser. q\<lparr>p_bg := [], p_fg := [], p_bold := False\<rparr>"
  have eq: "?e p' = ?e p"
    by (rule applyCodes_style_only [OF assms])
  have "p_ts (?e p') = p_ts (?e p)" "p_b (?e p') = p_b (?e p)" "p_c (?e p') = p_c (?e p)"
    "p_state (?e p') = p_state (?e p)"
    by (simp_all only: eq)
  then show "p_ts p' = p_ts p" "p_b p' = p_b p" "p_c p' = p_c p" "p_state p' = p_state p"
    by simp_all
qed

text \<open>
  The command loop fails only with \<open>parseError\<close>, and only at a 38 or 48 met
  as a command with fewer than two entries after it.
\<close>

lemma applyCodes_error:
  "applyCodes codes i p = Inl e \<Longrightarrow>
     e = parseError \<and>
     (\<exists>j. i \<le> j \<and> j < length codes \<and> (codes ! j = 38 \<or> codes ! j = 48) \<and> length codes < j + 3)"
proof (induction "length codes - i" arbitrary: i p rule: less_induct)
  case less
  define Short where
    "Short j \<longleftrightarrow> j < length codes \<and> (codes ! j = 38 \<or> codes ! j = 48) \<and> length codes < j + 3"
    for j
  have goal: "e = parseError \<and> (\<exists>j\<ge>i. Short j)"
  proof (cases "i < length codes")
    case False
    with less.prems show ?thesis
      by (simp add: applyCodes_end)
  next
    case True
    have IH: "e = parseError \<and> (\<exists>k\<ge>i. Short k)"
      if "applyCodes codes j q = Inl e" "i < j" for j q
    proof -
      have "length codes - j < length codes - i"
        using that(2) True by arith
      from less.hyps [OF this that(1)]
      obtain k where "e = parseError" "j \<le> k" "Short k"
        unfolding Short_def by auto
      with that(2) show ?thesis
        by (intro conjI exI [of _ k]) simp_all
    qed
    have here: "e = parseError \<and> (\<exists>k\<ge>i. Short k)"
      if "Inl parseError = (Inl e :: error + parser)" "codes ! i = 38 \<or> codes ! i = 48"
        "\<not> int i < int (length codes) - 2"
    proof -
      have "Short i"
        unfolding Short_def using that True by auto
      with that(1) show ?thesis
        by auto
    qed
    have "applyCodes codes i p = Inl e"
      by (rule less.prems)
    then show ?thesis
      apply (subst (asm) applyCodes.simps)
      apply (simp only: True if_True split: if_splits)
                apply ((erule IH, simp) | (erule here, simp, simp))+
      done
  qed
  then show ?case
    unfolding Short_def by auto
qed

text \<open>
  C6. The 256-color resolver is piecewise: the low table on 0..7, the high
  table on 8..15, the cube formula on 16..231, the grayscale table on 232..255
  and the empty string elsewhere; an empty result assigned by \<open>38;5;N\<close> or
  \<open>48;5;N\<close> clears the channel whatever it held.
\<close>

theorem color8bit_piecewise:
  "(0 \<le> N \<and> N \<le> 7 \<longrightarrow> color8bit N = LowColors ! nat N) \<and>
   (8 \<le> N \<and> N \<le> 15 \<longrightarrow> color8bit N = HighColors ! nat (N - 8)) \<and>
   (16 \<le> N \<and> N \<le> 231 \<longrightarrow>
      color8bit N =
        ''#'' @ CubeColors ! nat ((N - 16) div 36)
             @ CubeColors ! nat ((N - 16 - 36 * ((N - 16) div 36)) div 6)
             @ CubeColors ! nat (N - 16 - 36 * ((N - 16) div 36)
                                  - 6 * ((N - 16 - 36 * ((N - 16) div 36)) div 6))) \<and>
   (232 \<le> N \<and> N \<le> 255 \<longrightarrow> color8bit N = GrayscaleColors ! nat (N - 232)) \<and>
   (N < 0 \<or> 255 < N \<longrightarrow>
      color8bit N = [] \<and>
      applyCodes [38, 5, N] 0 p = Inr (p\<lparr>p_fg := []\<rparr>) \<and>
      applyCodes [48, 5, N] 0 p = Inr (p\<lparr>p_bg := []\<rparr>))"
proof -
  have clear: "color8bit N = []" if "N < 0 \<or> 255 < N"
    using that by (auto simp: color8bit_def)
  have fg: "applyCodes [38, 5, N] 0 p = Inr (p\<lparr>p_fg := color8bit N\<rparr>)"
    by (simp add: applyCodes_38_5 applyCodes_end)
  have bg: "applyCodes [48, 5, N] 0 p = Inr (p\<lparr>p_bg := color8bit N\<rparr>)"
    by (simp add: applyCodes_48_5 applyCodes_end)
  show ?thesis
    using clear fg bg by (auto simp: color8bit_def Let_def)
qed

theorem color8bit_piecewise_witness:
  "color8bit 3 = ''#808000'' \<and> color8bit 12 = ''#0000ff'' \<and> color8bit 42 = ''#00d787'' \<and>
   color8bit 243 = ''#767676'' \<and> color8bit 256 = [] \<and>
   applyCodes [38, 5, 256] 0 (parser0\<lparr>p_fg := ''#800000''\<rparr>) = Inr (parser0\<lparr>p_fg := []\<rparr>)"
  using color8bit_piecewise [of 3] color8bit_piecewise [of 12] color8bit_piecewise [of 42]
    color8bit_piecewise [of 243] color8bit_piecewise [of 256 "parser0\<lparr>p_fg := ''#800000''\<rparr>"]
  by (simp add: tables)

text \<open>
  C9. The grayscale table is not strictly increasing: its entries 14 and 15,
  the colors of the palette indices 246 and 247, are the same string.
\<close>

theorem grayscale_246_equals_247:
  "color8bit 246 = ''#9e9e9e'' \<and> color8bit 247 = ''#9e9e9e'' \<and> color8bit 246 = color8bit 247"
  by (simp add: color8bit_def tables)

text \<open>Whole parses around the extended color commands.\<close>

lemma parse_extended_examples:
  "parse (''a'' @ [ESC] @ ''[38;5mb'') =
     ([\<lparr>t_text = ''a'', t_bg = [], t_fg = [], t_bold = False\<rparr>], Some parseError)"
  "parse (''a'' @ [ESC] @ ''[1;48mb'') =
     ([\<lparr>t_text = ''a'', t_bg = [], t_fg = [], t_bold = False\<rparr>], Some parseError)"
  "parse ([ESC] @ ''[38;5;1;48;5;2mword'') =
     ([\<lparr>t_text = ''word'', t_bg = ''#008000'', t_fg = ''#800000'', t_bold = False\<rparr>], None)"
  by code_simp+

text \<open>
  C7. Where the command loop meets 38 (or 48) at index \<open>i\<close>: with fewer than
  two entries after it the loop fails with \<open>parseError\<close>; with the entries 5
  and N after it the foreground (or background) becomes \<open>color8bit N\<close> and the
  loop goes on behind N, at \<open>i + 3\<close>, so neither entry is read as a command.
\<close>

theorem applyCodes_extended_color:
  "i < length codes \<Longrightarrow> codes ! i = 38 \<or> codes ! i = 48 \<Longrightarrow>
     (length codes < i + 3 \<longrightarrow> applyCodes codes i p = Inl parseError) \<and>
     (i + 2 < length codes \<and> codes ! (i + 1) = 5 \<longrightarrow>
        applyCodes codes i p =
          applyCodes codes (i + 3)
            (if codes ! i = 38 then p\<lparr>p_fg := color8bit (codes ! (i + 2))\<rparr>
             else p\<lparr>p_bg := color8bit (codes ! (i + 2))\<rparr>))"
proof (intro conjI impI)
  assume a: "i < length codes" "codes ! i = 38 \<or> codes ! i = 48"
  {
    assume "length codes < i + 3"
    with a show "applyCodes codes i p = Inl parseError"
      by (rule applyCodes_38_48_short)
  next
    assume b: "i + 2 < length codes \<and> codes ! (i + 1) = 5"
    show "applyCodes codes i p =
          applyCodes codes (i + 3)
            (if codes ! i = 38 then p\<lparr>p_fg := color8bit (codes ! (i + 2))\<rparr>
             else p\<lparr>p_bg := color8bit (codes ! (i + 2))\<rparr>)"
    proof (cases "codes ! i = 38")
      case True
      then show ?thesis using b by (simp add: applyCodes_38_5)
    next
      case False
      with a have "codes ! i = 48" by simp
      then show ?thesis using b by (simp add: applyCodes_48_5)
    qed
  }
qed

theorem applyCodes_extended_color_witness:
  "applyCodes [1, 38, 5] 1 parser0 = Inl parseError \<and>
   applyCodes [48] 0 parser0 = Inl parseError \<and>
   applyCodes [38, 5, 1, 48, 5, 2] 0 parser0 =
     Inr (parser0\<lparr>p_fg := ''#800000'', p_bg := ''#008000''\<rparr>) \<and>
   parse (''a'' @ [ESC] @ ''[38;5mb'') =
     ([\<lparr>t_text = ''a'', t_bg = [], t_fg = [], t_bold = False\<rparr>], Some parseError) \<and>
   parse ([ESC] @ ''[38;5;1;48;5;2mword'') =
     ([\<lparr>t_text = ''word'', t_bg = ''#008000'', t_fg = ''#800000'', t_bold = False\<rparr>], None)"
proof -
  have e: "color8bit 1 = ''#800000''" "color8bit 2 = ''#008000''"
    by (simp_all add: color8bit_def tables)
  have a: "applyCodes [1, 38, 5] 1 parser0 = Inl parseError"
    using applyCodes_extended_color [of 1 "[1, 38, 5]" parser0] by simp
  have b: "applyCodes [48] 0 parser0 = Inl parseError"
    using applyCodes_extended_color [of 0 "[48]" parser0] by simp
  have c: "applyCodes [38, 5, 1, 48, 5, 2] 0 parser0
             = applyCodes [38, 5, 1, 48, 5, 2] 3 (parser0\<lparr>p_fg := ''#800000''\<rparr>)"
    using applyCodes_extended_color [of 0 "[38, 5, 1, 48, 5, 2]" parser0] by (simp add: e)
  have d: "applyCodes [38, 5, 1, 48, 5, 2] 3 (parser0\<lparr>p_fg := ''#800000''\<rparr>)
             = applyCodes [38, 5, 1, 48, 5, 2] 6 (parser0\<lparr>p_fg := ''#800000'', p_bg := ''#008000''\<rparr>)"
    using applyCodes_extended_color [of 3 "[38, 5, 1, 48, 5, 2]" "parser0\<lparr>p_fg := ''#800000''\<rparr>"]
    by (simp add: eval_nat_numeral e)
  have f: "applyCodes [1, 38, 5] 1 parser0 = Inl parseError \<and>
      applyCodes [48] 0 parser0 = Inl parseError \<and>
      applyCodes [38, 5, 1, 48, 5, 2] 0 parser0 =
        Inr (parser0\<lparr>p_fg := ''#800000'', p_bg := ''#008000''\<rparr>)"
    using a b c d by (simp add: applyCodes_end eval_nat_numeral)
  show ?thesis
    using f parse_extended_examples(1,3) by blast
qed

text \<open>
  C10 (amended). Where the command loop meets 38 (or 48) at index \<open>i\<close> with at
  least two entries after it and the next entry is not 5: this command raises
  no error and leaves the parser as it was, and the loop goes on at \<open>i + 2\<close>,
  so the entry behind the skipped one is read as a command of its own. An
  error of the whole loop then comes from a later command only: a 38 or 48 at
  \<open>i + 2\<close> or behind with fewer than two entries after it.
\<close>

theorem applyCodes_extended_not5:
  "i + 2 < length codes \<Longrightarrow> codes ! i = 38 \<or> codes ! i = 48 \<Longrightarrow> codes ! (i + 1) \<noteq> 5 \<Longrightarrow>
     applyCodes codes i p = applyCodes codes (i + 2) p \<and>
     (\<forall>e. applyCodes codes i p = Inl e \<longrightarrow>
        e = parseError \<and>
        (\<exists>j. i + 2 \<le> j \<and> j < length codes \<and> (codes ! j = 38 \<or> codes ! j = 48) \<and>
             length codes < j + 3))"
proof -
  assume a: "i + 2 < length codes" "codes ! i = 38 \<or> codes ! i = 48" "codes ! (i + 1) \<noteq> 5"
  have eq: "applyCodes codes i p = applyCodes codes (i + 2) p"
    using a by (rule applyCodes_38_48_not5)
  show ?thesis
    using eq applyCodes_error [of codes "i + 2" p] by simp
qed

theorem applyCodes_extended_not5_witness:
  "applyCodes [38, 2, 1] 0 (parser0\<lparr>p_fg := ''#800000''\<rparr>)
     = Inr (parser0\<lparr>p_fg := ''#800000'', p_bold := True\<rparr>) \<and>
   applyCodes [48, 0, 31] 0 parser0 = Inr (parser0\<lparr>p_fg := ''#800000''\<rparr>)"
proof -
  have one: "applyCodes [38, 2, 1] 2 p = Inr (p\<lparr>p_bold := True\<rparr>)" for p
    by (subst applyCodes.simps) (simp add: applyCodes_end)
  have red: "applyCodes [48, 0, 31] 2 p = Inr (p\<lparr>p_fg := ''#800000''\<rparr>)" for p
    by (subst applyCodes.simps) (simp add: applyCodes_end tables)
  have a: "applyCodes [38, 2, 1] 0 (parser0\<lparr>p_fg := ''#800000''\<rparr>)
             = applyCodes [38, 2, 1] 2 (parser0\<lparr>p_fg := ''#800000''\<rparr>)"
    using applyCodes_extended_not5 [of 0 "[38, 2, 1]" "parser0\<lparr>p_fg := ''#800000''\<rparr>"]
    by (simp add: eval_nat_numeral)
  have b: "applyCodes [48, 0, 31] 0 parser0 = applyCodes [48, 0, 31] 2 parser0"
    using applyCodes_extended_not5 [of 0 "[48, 0, 31]" parser0]
    by (simp add: eval_nat_numeral)
  show ?thesis
    using a b one [of "parser0\<lparr>p_fg := ''#800000''\<rparr>"] red [of parser0] by simp
qed

theorem applyCodes_extended_not5_counterexample:
  "0 + 2 < length [38, 2, 38 :: int] \<and> [38, 2, 38 :: int] ! 0 = 38 \<and> [38, 2, 38 :: int] ! (0 + 1) \<noteq> 5 \<and>
   applyCodes [38, 2, 38] 0 parser0 = Inl parseError \<and>
   parse ([ESC] @ ''[38;2;38mX'') = ([], Some parseError)"
  by code_simp

section \<open>The state functions\<close>

lemma parser_state_same: "p_state p = s \<Longrightarrow> p\<lparr>p_state := s\<rparr> = p"
  by auto

lemma parser0_init [simp]: "parser0\<lparr>p_ts := [], p_state := StatePlain\<rparr> = parser0"
  by (simp add: parser0_def)

lemma parser0_fields [simp]:
  "p_state parser0 = StatePlain" "p_ts parser0 = []" "p_b parser0 = []" "p_c parser0 = []"
  "p_bg parser0 = []" "p_fg parser0 = []" "p_bold parser0 = False"
  by (simp_all add: parser0_def)

section \<open>Strings\<close>

lemma Join_empty_sep: "Join xs [] = concat xs"
  by (induction xs "[] :: string" rule: Join.induct) simp_all

lemma escapeChar_reserved:
  "CHR ''<'' \<notin> set (escapeChar c)" "CHR ''>'' \<notin> set (escapeChar c)"
  "CHR 0x22 \<notin> set (escapeChar c)" "CHR 0x27 \<notin> set (escapeChar c)"
  by (simp_all add: escapeChar_def)

lemma EscapeString_reserved:
  "CHR ''<'' \<notin> set (EscapeString s)" "CHR ''>'' \<notin> set (EscapeString s)"
  "CHR 0x22 \<notin> set (EscapeString s)" "CHR 0x27 \<notin> set (EscapeString s)"
  by (simp_all add: EscapeString_def escapeChar_reserved)

lemma EscapeString_unreserved:
  "set s \<inter> {CHR ''&'', CHR 0x27, CHR ''<'', CHR ''>'', CHR 0x22} = {} \<Longrightarrow> EscapeString s = s"
  by (induction s) (auto simp: EscapeString_def escapeChar_def)

lemma toHTML_default: "toHTML \<lparr>t_text = s, t_bg = [], t_fg = [], t_bold = False\<rparr> = EscapeString s"
  by (simp add: toHTML_def)


lemma ascii_lits [simp]:
  "(of_char ESC :: int) < 128" "(of_char (CHR ''['') :: int) < 128"
  "(of_char (CHR ''m'') :: int) < 128"
  by (simp_all add: ESC_def)

lemma runeLit_distinct [simp]:
  "runeLit ESC \<noteq> runeLit (CHR ''['')" "runeLit (CHR ''['') \<noteq> runeLit (CHR ''m'')"
  "runeLit ESC \<noteq> runeLit (CHR ''m'')" "runeLit (CHR ''m'') \<noteq> runeLit (CHR ''['')"
  by (simp_all add: runeLit_def ESC_def)

section \<open>The loop of the parser\<close>

lemma callState_Plain:
  "p_state p = StatePlain \<Longrightarrow>
     callState p c =
       (if c = runeLit ESC then Inr (if p_b p \<noteq> [] then parser_append p else p, StateESC)
        else Inr (p\<lparr>p_b := p_b p @ encodeRune c\<rparr>, StatePlain))"
  by (simp add: callState_def parsePlain_def ESC_def)

lemma callState_ESC:
  "p_state p = StateESC \<Longrightarrow>
     callState p c = (if c = runeLit (CHR ''['') then Inr (p, StateCSI) else Inl parseError)"
  by (simp add: callState_def parseESC_def)

lemma callState_CSI_other:
  "p_state p = StateCSI \<Longrightarrow> c \<noteq> runeLit (CHR ''m'') \<Longrightarrow>
     callState p c = Inr (p\<lparr>p_c := p_c p @ encodeRune c\<rparr>, StateCSI)"
  by (simp add: callState_def parseCSI_def)

lemma callState_CSI_m:
  "p_state p = StateCSI \<Longrightarrow> callState p (runeLit (CHR ''m'')) = Inr (p', st) \<Longrightarrow>
     st = StatePlain \<and> p_ts p' = p_ts p \<and> p_b p' = p_b p \<and> p_c p' = [] \<and> p_state p' = StateCSI"
  by (auto simp: callState_def parseCSI_def split: sum.splits dest: applyCodes_frame)

lemma loop_append:
  "loop p (xs @ ys) = (case loop p xs of (p', None) \<Rightarrow> loop p' ys | (p', Some err) \<Rightarrow> (p', Some err))"
  by (induction xs arbitrary: p) (auto split: sum.splits)

lemma loop_no_ESC:
  "p_state p = StatePlain \<Longrightarrow> runeLit ESC \<notin> set rs \<Longrightarrow>
     loop p rs = (p\<lparr>p_b := p_b p @ encodeRunes rs\<rparr>, None)"
proof (induction rs arbitrary: p)
  case Nil
  then show ?case by simp
next
  case (Cons c cs)
  let ?q = "p\<lparr>p_b := p_b p @ encodeRune c\<rparr>"
  have q: "?q\<lparr>p_state := StatePlain\<rparr> = ?q"
    using Cons.prems(1) by (intro parser_state_same) simp
  have c: "c \<noteq> runeLit ESC"
    using Cons.prems(2) by auto
  have "loop p (c # cs) = loop ?q cs"
    using Cons.prems(1) c by (simp add: callState_Plain q)
  also have "\<dots> = (?q\<lparr>p_b := p_b ?q @ encodeRunes cs\<rparr>, None)"
    using Cons.prems by (intro Cons.IH) simp_all
  finally show ?case by simp
qed

text \<open>
  C4 (amended). For an input without the code point ESC: if it is not empty,
  \<open>parse\<close> returns one run with the default style whose text is the input
  with every ill-formed byte replaced by U+FFFD, which is the input itself
  when that is well-formed UTF-8; \<open>parseHTML\<close> returns that text escaped, in
  which no \<open><\<close> is left, so no span.
\<close>

theorem parse_no_escape:
  "runeLit ESC \<notin> set (runes inp) \<Longrightarrow>
     (inp \<noteq> [] \<longrightarrow>
        parse inp = ([\<lparr>t_text = spec_replaceIllFormed inp, t_bg = [], t_fg = [], t_bold = False\<rparr>], None)) \<and>
     parseHTML inp = (EscapeString (spec_replaceIllFormed inp), None) \<and>
     CHR ''<'' \<notin> set (fst (parseHTML inp)) \<and>
     (spec_wellFormedUTF8 inp \<longrightarrow>
        (inp \<noteq> [] \<longrightarrow> parse inp = ([\<lparr>t_text = inp, t_bg = [], t_fg = [], t_bold = False\<rparr>], None)) \<and>
        parseHTML inp = (EscapeString inp, None))"
proof -
  assume "runeLit ESC \<notin> set (runes inp)"
  then have l: "loop parser0 (runes inp) = (parser0\<lparr>p_b := spec_replaceIllFormed inp\<rparr>, None)"
    using loop_no_ESC [of parser0 "runes inp"] by (simp add: reencode)
  have pp: "parser_parse parser0 inp = (parser_append (parser0\<lparr>p_b := spec_replaceIllFormed inp\<rparr>), None)"
    by (simp add: parser_parse_def l)
  have ts: "p_ts (parser_append (parser0\<lparr>p_b := spec_replaceIllFormed inp\<rparr>))
              = [\<lparr>t_text = spec_replaceIllFormed inp, t_bg = [], t_fg = [], t_bold = False\<rparr>]"
    by (simp add: parser_append_def)
  have h: "parseHTML inp = (EscapeString (spec_replaceIllFormed inp), None)"
    by (simp add: parseHTML_def pp ts toHTML_default)
  have p: "inp \<noteq> [] \<longrightarrow>
      parse inp = ([\<lparr>t_text = spec_replaceIllFormed inp, t_bg = [], t_fg = [], t_bold = False\<rparr>], None)"
    by (simp add: parse_def pp ts)
  have lt: "CHR ''<'' \<notin> set (fst (parseHTML inp))"
    by (simp add: h EscapeString_reserved)
  show ?thesis
    using p h lt wellFormed_replace [of inp] by simp
qed

lemma parse_no_escape_examples:
  "runeLit ESC \<notin> set (runes ''a<b'')" "runeLit ESC \<notin> set (runes [CHR 0xC3, CHR 0xA9])"
  "runeLit ESC \<notin> set (runes [CHR 0xC3, CHR ''a''])"
  "spec_wellFormedUTF8 ''a<b''" "spec_wellFormedUTF8 [CHR 0xC3, CHR 0xA9]"
  "spec_replaceIllFormed [CHR 0xC3, CHR ''a''] = [CHR 0xEF, CHR 0xBF, CHR 0xBD, CHR ''a'']"
  "EscapeString ''a<b'' = ''a&lt;b''"
  by code_simp+

theorem parse_no_escape_witness:
  "parse ''a<b'' = ([\<lparr>t_text = ''a<b'', t_bg = [], t_fg = [], t_bold = False\<rparr>], None) \<and>
   parseHTML ''a<b'' = (''a&lt;b'', None) \<and>
   parse [CHR 0xC3, CHR 0xA9]
     = ([\<lparr>t_text = [CHR 0xC3, CHR 0xA9], t_bg = [], t_fg = [], t_bold = False\<rparr>], None) \<and>
   parse [CHR 0xC3, CHR ''a'']
     = ([\<lparr>t_text = [CHR 0xEF, CHR 0xBF, CHR 0xBD, CHR ''a''], t_bg = [], t_fg = [], t_bold = False\<rparr>],
        None)"
proof -
  have ne: "''a<b'' \<noteq> []" "[CHR 0xC3, CHR 0xA9] \<noteq> []" "[CHR 0xC3, CHR ''a''] \<noteq> []"
    by simp_all
  have a: "parse ''a<b'' = ([\<lparr>t_text = ''a<b'', t_bg = [], t_fg = [], t_bold = False\<rparr>], None)"
    "parseHTML ''a<b'' = (EscapeString ''a<b'', None)"
    using parse_no_escape [OF parse_no_escape_examples(1)] parse_no_escape_examples(4) ne(1)
    by blast+
  have b: "parse [CHR 0xC3, CHR 0xA9]
      = ([\<lparr>t_text = [CHR 0xC3, CHR 0xA9], t_bg = [], t_fg = [], t_bold = False\<rparr>], None)"
    using parse_no_escape [OF parse_no_escape_examples(2)] parse_no_escape_examples(5) ne(2)
    by blast
  have "parse [CHR 0xC3, CHR ''a'']
      = ([\<lparr>t_text = spec_replaceIllFormed [CHR 0xC3, CHR ''a''], t_bg = [], t_fg = [], t_bold = False\<rparr>],
         None)"
    using parse_no_escape [OF parse_no_escape_examples(3)] ne(3) by blast
  then have c: "parse [CHR 0xC3, CHR ''a'']
      = ([\<lparr>t_text = [CHR 0xEF, CHR 0xBF, CHR 0xBD, CHR ''a''], t_bg = [], t_fg = [], t_bold = False\<rparr>],
         None)"
    by (simp only: parse_no_escape_examples(6))
  from a(2) have a2: "parseHTML ''a<b'' = (''a&lt;b'', None)"
    by (simp only: parse_no_escape_examples(7))
  show ?thesis
    using a(1) a2 b c by blast
qed

theorem parse_no_escape_counterexample:
  "runeLit ESC \<notin> set (runes []) \<and> parse [] = ([], None) \<and> length (fst (parse [])) \<noteq> 1 \<and>
   runeLit ESC \<notin> set (runes [CHR 0xFF]) \<and>
   parse [CHR 0xFF] = ([\<lparr>t_text = [CHR 0xEF, CHR 0xBF, CHR 0xBD], t_bg = [], t_fg = [], t_bold = False\<rparr>], None) \<and>
   [CHR 0xEF, CHR 0xBF, CHR 0xBD] \<noteq> [CHR 0xFF] \<and>
   parseHTML [CHR 0xFF] = ([CHR 0xEF, CHR 0xBF, CHR 0xBD], None) \<and>
   EscapeString [CHR 0xFF] = [CHR 0xFF]"
  by code_simp

text \<open>
  C5. \<open>parse\<close> of the empty input returns no run and no error, although the
  method \<open>parser.parse\<close> itself flushes one empty run for it, as it flushes the
  pending buffer, empty or not, for every other input that ends in the plain
  state.
\<close>

theorem parse_empty:
  "parse [] = ([], None) \<and>
   parser_parse parser0 [] = (parser0\<lparr>p_ts := [\<lparr>t_text = [], t_bg = [], t_fg = [], t_bold = False\<rparr>]\<rparr>, None) \<and>
   (inp \<noteq> [] \<and> loop parser0 (runes inp) = (p, None) \<and> p_state p = StatePlain \<longrightarrow>
      parse inp = (p_ts p @ [pendingRun p], None))"
  by (auto simp: parse_def parser_parse_def parser_append_def pendingRun_def parser0_def)

lemma loop_reset_example:
  "loop parser0 (runes [ESC, CHR ''['', CHR ''0'', CHR ''m'']) = (parser0, None)"
  by code_simp

theorem parse_empty_witness:
  "parse [ESC, CHR ''['', CHR ''0'', CHR ''m'']
     = ([\<lparr>t_text = [], t_bg = [], t_fg = [], t_bold = False\<rparr>], None) \<and>
   parse [] = ([], None)"
  using parse_empty [of "[ESC, CHR ''['', CHR ''0'', CHR ''m'']" parser0] loop_reset_example
  by (simp add: pendingRun_def)

section \<open>The text of the runs\<close>

lemma afterM_simps [simp]:
  "afterM [] = []"
  "afterM (c # cs) = (if c = CHR ''m'' then cs else afterM cs)"
  by (simp_all add: afterM_def)

lemma afterM_append: "CHR ''m'' \<notin> set xs \<Longrightarrow> afterM (xs @ ys) = afterM ys"
  by (induction xs) auto

lemma spec_stripSGR_other: "c \<noteq> ESC \<Longrightarrow> spec_stripSGR (c # cs) = c # spec_stripSGR cs"
  by (cases cs) simp_all

lemma spec_stripSGR_append: "ESC \<notin> set xs \<Longrightarrow> spec_stripSGR (xs @ ys) = xs @ spec_stripSGR ys"
  by (induction xs) (auto simp: spec_stripSGR_other)

lemma spec_stripSGR_CSI: "spec_stripSGR (ESC # CHR ''['' # ds) = spec_stripSGR (afterM ds)"
  by simp

text \<open>
  The text still to come from the rest of the runes, by the state the loop
  is in: in the plain state the rest, written back and stripped; in the two
  escape states the stripped rest behind the terminating \<open>m\<close>.
\<close>

lemma loop_text:
  "loop p rs = (p', None) \<Longrightarrow>
     concat (map t_text (p_ts p')) @ p_b p' =
       concat (map t_text (p_ts p)) @ p_b p @
         (case p_state p of
            StatePlain \<Rightarrow> spec_stripSGR (encodeRunes rs)
          | StateESC \<Rightarrow> (case rs of [] \<Rightarrow> [] | d # ds \<Rightarrow> spec_stripSGR (afterM (encodeRunes ds)))
          | StateCSI \<Rightarrow> spec_stripSGR (afterM (encodeRunes rs)))"
proof (induction rs arbitrary: p)
  case Nil
  then show ?case
    by (simp split: parseState.splits)
next
  case (Cons c cs)
  from Cons.prems obtain q st where
    step: "callState p c = Inr (q, st)" and rest: "loop (q\<lparr>p_state := st\<rparr>) cs = (p', None)"
    by (auto split: sum.splits)
  note IH = Cons.IH [OF rest]
  show ?case
  proof (cases "p_state p")
    case StatePlain
    show ?thesis
    proof (cases "c = runeLit ESC")
      case False
      with step StatePlain have "q = p\<lparr>p_b := p_b p @ encodeRune c\<rparr>" "st = StatePlain"
        by (simp_all add: callState_Plain)
      moreover have "ESC \<notin> set (encodeRune c)"
        using False by (intro encodeRune_not_lit) simp_all
      ultimately show ?thesis
        using IH StatePlain by (simp add: spec_stripSGR_append)
    next
      case True
      with step StatePlain have q: "q = (if p_b p \<noteq> [] then parser_append p else p)"
        and st: "st = StateESC"
        by (simp_all add: callState_Plain)
      have same: "concat (map t_text (p_ts q)) @ p_b q = concat (map t_text (p_ts p)) @ p_b p"
        by (simp add: q parser_append_def)
      have e: "encodeRune c = [ESC]"
        unfolding True by (rule encodeRune_runeLit) simp
      show ?thesis
      proof (cases cs)
        case Nil
        with IH st same StatePlain e show ?thesis
          by simp
      next
        case (Cons d ds)
        have d: "d = runeLit (CHR ''['')"
          using rest st Cons by (auto simp: callState_ESC split: sum.splits if_splits)
        have "encodeRune d = ''[''"
          unfolding d by (rule encodeRune_runeLit) simp
        with IH st same StatePlain e Cons show ?thesis
          by simp
      qed
    qed
  next
    case StateESC
    with step have "c = runeLit (CHR ''['')" "q = p" "st = StateCSI"
      by (auto simp: callState_ESC split: if_splits)
    with IH StateESC show ?thesis
      by simp
  next
    case StateCSI
    show ?thesis
    proof (cases "c = runeLit (CHR ''m'')")
      case True
      with step StateCSI have "st = StatePlain" "p_ts q = p_ts p" "p_b q = p_b p"
        using callState_CSI_m [of p q st] by simp_all
      moreover have "encodeRune c = ''m''"
        unfolding True by (rule encodeRune_runeLit) simp
      ultimately show ?thesis
        using IH StateCSI by simp
    next
      case False
      with step StateCSI have "q = p\<lparr>p_c := p_c p @ encodeRune c\<rparr>" "st = StateCSI"
        by (simp_all add: callState_CSI_other)
      moreover have "CHR ''m'' \<notin> set (encodeRune c)"
        using False by (intro encodeRune_not_lit) simp_all
      ultimately show ?thesis
        using IH StateCSI by (simp add: afterM_append)
    qed
  qed
qed

text \<open>
  C1 (amended). Where the parse succeeds, the texts of the returned runs, put
  together in order, are the input with every ill-formed byte replaced by
  U+FFFD and with every escape sequence and a trailing unterminated one
  removed; for well-formed UTF-8 that is the input itself with them removed.
\<close>

theorem parse_text_stripped:
  "parse inp = (ts, None) \<Longrightarrow>
     concat (map t_text ts) = spec_stripSGR (spec_replaceIllFormed inp) \<and>
     (spec_wellFormedUTF8 inp \<longrightarrow> concat (map t_text ts) = spec_stripSGR inp)"
proof -
  assume a: "parse inp = (ts, None)"
  have "concat (map t_text ts) = spec_stripSGR (encodeRunes (runes inp))"
  proof (cases "inp = []")
    case True
    with a show ?thesis
      by (simp add: parse_def)
  next
    case False
    obtain p err where l: "loop parser0 (runes inp) = (p, err)"
      by (cases "loop parser0 (runes inp)")
    from a False l have err: "err = None" and ts: "ts = p_ts (parser_append p)"
      by (auto simp: parse_def parser_parse_def split: option.splits)
    from loop_text [of parser0 "runes inp" p] l err
    have "concat (map t_text (p_ts p)) @ p_b p = spec_stripSGR (encodeRunes (runes inp))"
      by simp
    then show ?thesis
      by (simp add: ts parser_append_def)
  qed
  then have "concat (map t_text ts) = spec_stripSGR (spec_replaceIllFormed inp)"
    by (simp only: reencode)
  then show ?thesis
    using wellFormed_replace [of inp] by simp
qed

lemma parse_text_examples:
  "parse (''foo'' @ [ESC] @ ''[31mb'' @ [CHR 0xC3, CHR 0xA9] @ ''r'' @ [ESC] @ ''[0mbaz'' @ [ESC] @ ''[1'') =
     ([\<lparr>t_text = ''foo'', t_bg = [], t_fg = [], t_bold = False\<rparr>,
       \<lparr>t_text = ''b'' @ [CHR 0xC3, CHR 0xA9] @ ''r'', t_bg = [], t_fg = ''#800000'', t_bold = False\<rparr>,
       \<lparr>t_text = ''baz'', t_bg = [], t_fg = [], t_bold = False\<rparr>,
       \<lparr>t_text = [], t_bg = [], t_fg = [], t_bold = False\<rparr>], None)"
  "spec_wellFormedUTF8
     (''foo'' @ [ESC] @ ''[31mb'' @ [CHR 0xC3, CHR 0xA9] @ ''r'' @ [ESC] @ ''[0mbaz'' @ [ESC] @ ''[1'')"
  "spec_stripSGR
     (''foo'' @ [ESC] @ ''[31mb'' @ [CHR 0xC3, CHR 0xA9] @ ''r'' @ [ESC] @ ''[0mbaz'' @ [ESC] @ ''[1'')
     = ''foob'' @ [CHR 0xC3, CHR 0xA9] @ ''rbaz''"
  by code_simp+

theorem parse_text_stripped_witness:
  "concat (map t_text
     [\<lparr>t_text = ''foo'', t_bg = [], t_fg = [], t_bold = False\<rparr>,
      \<lparr>t_text = ''b'' @ [CHR 0xC3, CHR 0xA9] @ ''r'', t_bg = [], t_fg = ''#800000'', t_bold = False\<rparr>,
      \<lparr>t_text = ''baz'', t_bg = [], t_fg = [], t_bold = False\<rparr>,
      \<lparr>t_text = [], t_bg = [], t_fg = [], t_bold = False\<rparr>])
   = spec_stripSGR
       (''foo'' @ [ESC] @ ''[31mb'' @ [CHR 0xC3, CHR 0xA9] @ ''r'' @ [ESC] @ ''[0mbaz'' @ [ESC] @ ''[1'')
   \<and> spec_stripSGR
         (''foo'' @ [ESC] @ ''[31mb'' @ [CHR 0xC3, CHR 0xA9] @ ''r'' @ [ESC] @ ''[0mbaz'' @ [ESC] @ ''[1'')
       = ''foob'' @ [CHR 0xC3, CHR 0xA9] @ ''rbaz''"
  using parse_text_stripped [OF parse_text_examples(1)] parse_text_examples(2,3)
  by blast

theorem parse_text_stripped_counterexample:
  "snd (parse ([CHR ''a'', CHR 0xFF, ESC] @ ''[1mb'')) = None \<and>
   concat (map t_text (fst (parse ([CHR ''a'', CHR 0xFF, ESC] @ ''[1mb''))))
     = [CHR ''a'', CHR 0xEF, CHR 0xBF, CHR 0xBD, CHR ''b''] \<and>
   spec_stripSGR ([CHR ''a'', CHR 0xFF, ESC] @ ''[1mb'') = [CHR ''a'', CHR 0xFF, CHR ''b''] \<and>
   spec_stripSGR (spec_replaceIllFormed ([CHR ''a'', CHR 0xFF, ESC] @ ''[1mb''))
     = [CHR ''a'', CHR 0xEF, CHR 0xBF, CHR 0xBD, CHR ''b''] \<and>
   concat (map t_text (fst (parse ([CHR ''a'', CHR 0xFF, ESC] @ ''[1mb''))))
     \<noteq> spec_stripSGR ([CHR ''a'', CHR 0xFF, ESC] @ ''[1mb'')"
  by code_simp

section \<open>Unterminated escape sequences\<close>

lemma loop_CSI_params:
  "p_state p = StateCSI \<Longrightarrow> runeLit (CHR ''m'') \<notin> set ps \<Longrightarrow>
     loop p ps = (p\<lparr>p_c := p_c p @ encodeRunes ps\<rparr>, None)"
proof (induction ps arbitrary: p)
  case Nil
  then show ?case by simp
next
  case (Cons c cs)
  let ?q = "p\<lparr>p_c := p_c p @ encodeRune c\<rparr>"
  have q: "?q\<lparr>p_state := StateCSI\<rparr> = ?q"
    using Cons.prems(1) by (intro parser_state_same) simp
  have c: "c \<noteq> runeLit (CHR ''m'')"
    using Cons.prems(2) by auto
  have "loop p (c # cs) = loop ?q cs"
    using Cons.prems(1) c by (simp add: callState_CSI_other q)
  also have "\<dots> = (?q\<lparr>p_c := p_c ?q @ encodeRunes cs\<rparr>, None)"
    using Cons.prems by (intro Cons.IH) simp_all
  finally show ?case by simp
qed

text \<open>The parser behind an ESC read in the plain state and an unterminated rest.\<close>

lemma loop_unterminated:
  assumes "loop p pre = (q, None)" "p_state q = StatePlain"
  shows "loop p (pre @ [runeLit ESC])
           = ((if p_b q \<noteq> [] then parser_append q else q)\<lparr>p_state := StateESC\<rparr>, None)"
    and "runeLit (CHR ''m'') \<notin> set ps \<Longrightarrow>
         loop p (pre @ runeLit ESC # runeLit (CHR ''['') # ps) =
           ((if p_b q \<noteq> [] then parser_append q else q)
              \<lparr>p_state := StateCSI, p_c := p_c q @ encodeRunes ps\<rparr>, None)"
proof -
  let ?f = "if p_b q \<noteq> [] then parser_append q else q"
  show "loop p (pre @ [runeLit ESC]) = (?f\<lparr>p_state := StateESC\<rparr>, None)"
    using assms by (simp add: loop_append callState_Plain)
  assume m: "runeLit (CHR ''m'') \<notin> set ps"
  have c: "p_c ?f = p_c q"
    by (simp add: parser_append_def)
  have "loop p (pre @ runeLit ESC # runeLit (CHR ''['') # ps) = loop (?f\<lparr>p_state := StateCSI\<rparr>) ps"
    using assms by (simp add: loop_append callState_Plain callState_ESC)
  also have "\<dots> = (?f\<lparr>p_state := StateCSI\<rparr>
                       \<lparr>p_c := p_c (?f\<lparr>p_state := StateCSI\<rparr>) @ encodeRunes ps\<rparr>, None)"
    using m by (intro loop_CSI_params) simp_all
  finally show "loop p (pre @ runeLit ESC # runeLit (CHR ''['') # ps)
      = (?f\<lparr>p_state := StateCSI, p_c := p_c q @ encodeRunes ps\<rparr>, None)"
    by (simp add: c)
qed

text \<open>
  A rune sequence that leaves the loop in an escape state ends with an ESC
  read in the plain state and at most \<open>[\<close> and parameter characters behind it.
\<close>

lemma loop_escape_state_decomp:
  "loop p rs = (p', None) \<Longrightarrow> p_state p = StatePlain \<Longrightarrow> p_state p' \<noteq> StatePlain \<Longrightarrow>
     \<exists>pre rest q. rs = pre @ runeLit ESC # rest \<and> loop p pre = (q, None) \<and> p_state q = StatePlain \<and>
       ((rest = [] \<and> p_state p' = StateESC) \<or>
        (\<exists>ps. rest = runeLit (CHR ''['') # ps \<and> runeLit (CHR ''m'') \<notin> set ps \<and>
           p_state p' = StateCSI))"
proof (induction rs arbitrary: p' rule: rev_induct)
  case Nil
  then show ?case by simp
next
  case (snoc x xs)
  from snoc.prems(1) obtain p1 q st where
    xs: "loop p xs = (p1, None)" and step: "callState p1 x = Inr (q, st)"
    and p': "p' = q\<lparr>p_state := st\<rparr>"
    by (auto simp: loop_append split: prod.splits option.splits sum.splits)
  from p' snoc.prems(3) have st: "st \<noteq> StatePlain"
    by simp
  show ?case
  proof (cases "p_state p1")
    case StatePlain
    with step st have "x = runeLit ESC" "st = StateESC"
      by (auto simp: callState_Plain split: if_splits)
    with xs StatePlain p' show ?thesis
      by (intro exI [of _ xs] exI [of _ "[]"] exI [of _ p1]) simp
  next
    case StateESC
    with step have x: "x = runeLit (CHR ''['')" and s: "st = StateCSI"
      by (auto simp: callState_ESC split: if_splits)
    from snoc.IH [OF xs snoc.prems(2)] StateESC
    obtain pre q0 where "xs = pre @ [runeLit ESC]" "loop p pre = (q0, None)"
      "p_state q0 = StatePlain"
      by auto
    with x s p' show ?thesis
      by (intro exI [of _ pre] exI [of _ "[runeLit (CHR ''['')]"] exI [of _ q0]) simp
  next
    case StateCSI
    have x: "x \<noteq> runeLit (CHR ''m'')"
    proof
      assume "x = runeLit (CHR ''m'')"
      with step StateCSI have "st = StatePlain"
        using callState_CSI_m [of p1 q st] by simp
      with st show False by simp
    qed
    with step StateCSI have s: "st = StateCSI"
      by (simp add: callState_CSI_other)
    from snoc.IH [OF xs snoc.prems(2)] StateCSI
    obtain pre ps q0 where "xs = pre @ runeLit ESC # runeLit (CHR ''['') # ps"
      "runeLit (CHR ''m'') \<notin> set ps" "loop p pre = (q0, None)" "p_state q0 = StatePlain"
      by auto
    with x s p' show ?thesis
      by (intro exI [of _ pre] exI [of _ "runeLit (CHR ''['') # ps @ [x]"] exI [of _ q0]) simp
  qed
qed

text \<open>
  C2 (amended). An input that ends in an escape state is, rune by rune, some
  sequence ending in the plain state, then ESC, then nothing or \<open>[\<close> and
  parameter characters. \<open>parse\<close> returns no error and returns the runs flushed
  up to that ESC (the pending text included) followed by one more run: the
  empty text with the style in effect, from the flush at the end of the input.
\<close>

theorem parse_unterminated:
  "loop parser0 (runes inp) = (p, None) \<Longrightarrow> p_state p \<noteq> StatePlain \<Longrightarrow>
     \<exists>pre rest q.
        runes inp = pre @ runeLit ESC # rest \<and>
        (rest = [] \<or> (\<exists>ps. rest = runeLit (CHR ''['') # ps \<and> runeLit (CHR ''m'') \<notin> set ps)) \<and>
        loop parser0 pre = (q, None) \<and> p_state q = StatePlain \<and>
        parse inp =
          (p_ts q @ (if p_b q \<noteq> [] then [pendingRun q] else [])
             @ [\<lparr>t_text = [], t_bg = p_bg q, t_fg = p_fg q, t_bold = p_bold q\<rparr>], None)"
proof -
  assume l: "loop parser0 (runes inp) = (p, None)" and s: "p_state p \<noteq> StatePlain"
  from loop_escape_state_decomp [OF l _ s]
  obtain pre rest q where inp: "runes inp = pre @ runeLit ESC # rest"
    and pre: "loop parser0 pre = (q, None)"
    and q: "p_state q = StatePlain"
    and rest: "rest = [] \<or> (\<exists>ps. rest = runeLit (CHR ''['') # ps \<and> runeLit (CHR ''m'') \<notin> set ps)"
    by auto
  let ?f = "if p_b q \<noteq> [] then parser_append q else q"
  have f: "p_ts ?f = p_ts q @ (if p_b q \<noteq> [] then [pendingRun q] else [])" "p_b ?f = []"
    "p_bg ?f = p_bg q" "p_fg ?f = p_fg q" "p_bold ?f = p_bold q"
    by (simp_all add: parser_append_def pendingRun_def)
  from rest have "p_ts p = p_ts ?f \<and> p_b p = p_b ?f \<and> p_bg p = p_bg ?f \<and> p_fg p = p_fg ?f
      \<and> p_bold p = p_bold ?f"
  proof
    assume "rest = []"
    with loop_unterminated(1) [OF pre q] l inp have "p = ?f\<lparr>p_state := StateESC\<rparr>"
      by simp
    then show ?thesis by simp
  next
    assume "\<exists>ps. rest = runeLit (CHR ''['') # ps \<and> runeLit (CHR ''m'') \<notin> set ps"
    then obtain ps where "rest = runeLit (CHR ''['') # ps" "runeLit (CHR ''m'') \<notin> set ps"
      by auto
    with loop_unterminated(2) [OF pre q] l inp
    have "p = ?f\<lparr>p_state := StateCSI, p_c := p_c q @ encodeRunes ps\<rparr>"
      by simp
    then show ?thesis by simp
  qed
  then have "p_ts (parser_append p) =
      p_ts q @ (if p_b q \<noteq> [] then [pendingRun q] else [])
        @ [\<lparr>t_text = [], t_bg = p_bg q, t_fg = p_fg q, t_bold = p_bold q\<rparr>]"
    by (simp add: parser_append_def f del: if_split)
  moreover have "inp \<noteq> []"
    using inp by (auto simp: runes_Nil_iff [symmetric])
  ultimately have "parse inp =
      (p_ts q @ (if p_b q \<noteq> [] then [pendingRun q] else [])
         @ [\<lparr>t_text = [], t_bg = p_bg q, t_fg = p_fg q, t_bold = p_bold q\<rparr>], None)"
    using l by (simp add: parse_def parser_parse_def)
  with inp pre q rest show ?thesis
    by blast
qed

lemma loop_unterminated_example:
  "loop parser0 (runes (''a'' @ [ESC] @ ''[31'')) = (fst (loop parser0 (runes (''a'' @ [ESC] @ ''[31''))), None)"
  "p_state (fst (loop parser0 (runes (''a'' @ [ESC] @ ''[31'')))) \<noteq> StatePlain"
  by code_simp+

lemma parse_unterminated_example:
  "parse (''a'' @ [ESC] @ ''[31'') =
     ([\<lparr>t_text = ''a'', t_bg = [], t_fg = [], t_bold = False\<rparr>,
       \<lparr>t_text = [], t_bg = [], t_fg = [], t_bold = False\<rparr>], None)"
  by code_simp

theorem parse_unterminated_witness:
  "(\<exists>pre rest q.
      runes (''a'' @ [ESC] @ ''[31'') = pre @ runeLit ESC # rest \<and>
      (rest = [] \<or> (\<exists>ps. rest = runeLit (CHR ''['') # ps \<and> runeLit (CHR ''m'') \<notin> set ps)) \<and>
      loop parser0 pre = (q, None) \<and> p_state q = StatePlain \<and>
      parse (''a'' @ [ESC] @ ''[31'') =
        (p_ts q @ (if p_b q \<noteq> [] then [pendingRun q] else [])
           @ [\<lparr>t_text = [], t_bg = p_bg q, t_fg = p_fg q, t_bold = p_bold q\<rparr>], None)) \<and>
   parse (''a'' @ [ESC] @ ''[31'') =
     ([\<lparr>t_text = ''a'', t_bg = [], t_fg = [], t_bold = False\<rparr>,
       \<lparr>t_text = [], t_bg = [], t_fg = [], t_bold = False\<rparr>], None)"
  using parse_unterminated [OF loop_unterminated_example] parse_unterminated_example
  by blast

theorem parse_unterminated_counterexample:
  "snd (loop parser0 (runes [CHR ''a'', ESC])) = None \<and>
   p_state (fst (loop parser0 (runes [CHR ''a'', ESC]))) = StateESC \<and>
   p_ts (fst (loop parser0 (runes [CHR ''a'', ESC])))
     = [\<lparr>t_text = ''a'', t_bg = [], t_fg = [], t_bold = False\<rparr>] \<and>
   parse [CHR ''a'', ESC] =
     ([\<lparr>t_text = ''a'', t_bg = [], t_fg = [], t_bold = False\<rparr>,
       \<lparr>t_text = [], t_bg = [], t_fg = [], t_bold = False\<rparr>], None)"
  by code_simp

section \<open>Failures\<close>

lemma atoiAll_error: "atoiAll strs = Inl e \<Longrightarrow> \<exists>s\<in>set strs. Atoi s = Inl e"
  by (induction strs) (auto split: sum.splits)

text \<open>The state functions fail in three ways only.\<close>

lemma callState_error:
  assumes "callState q c = Inl e"
  shows "(p_state q = StateESC \<and> c \<noteq> runeLit (CHR ''['') \<and> e = parseError) \<or>
         (p_state q = StateCSI \<and> c = runeLit (CHR ''m'') \<and>
            ((\<exists>s\<in>set (Split (p_c q) (CHR '';'')). Atoi s = Inl e) \<or>
             (\<exists>codes j. atoiAll (Split (p_c q) (CHR '';'')) = Inr codes \<and> e = parseError \<and>
                  j < length codes \<and> (codes ! j = 38 \<or> codes ! j = 48) \<and> length codes < j + 3)))"
proof (cases "p_state q")
  case StatePlain
  with assms show ?thesis
    by (simp add: callState_Plain split: if_splits)
next
  case StateESC
  with assms show ?thesis
    by (simp add: callState_ESC split: if_splits)
next
  case StateCSI
  with assms have m: "c = runeLit (CHR ''m'')"
    by (auto simp: callState_def parseCSI_def split: if_splits)
  show ?thesis
  proof (cases "atoiAll (Split (p_c q) (CHR '';''))")
    case (Inl e')
    with assms StateCSI m have "e' = e"
      by (simp add: callState_def parseCSI_def)
    with Inl atoiAll_error show ?thesis
      using StateCSI m by blast
  next
    case (Inr codes)
    with assms StateCSI m have "applyCodes codes 0 (q\<lparr>p_c := []\<rparr>) = Inl e"
      by (simp add: callState_def parseCSI_def split: sum.splits)
    from applyCodes_error [OF this] Inr show ?thesis
      using StateCSI m by blast
  qed
qed

lemma loop_error_decomp:
  "loop p rs = (p', Some e) \<Longrightarrow>
     \<exists>pre c post. rs = pre @ c # post \<and> loop p pre = (p', None) \<and> callState p' c = Inl e"
proof (induction rs arbitrary: p)
  case Nil
  then show ?case by simp
next
  case (Cons c cs)
  show ?case
  proof (cases "callState p c")
    case (Inl e')
    with Cons.prems have "p' = p" "e' = e"
      by simp_all
    with Inl show ?thesis
      by (intro exI [of _ "[]"] exI [of _ c] exI [of _ cs]) simp
  next
    case (Inr r)
    obtain q st where r: "r = (q, st)"
      by (cases r)
    with Inr Cons.prems have "loop (q\<lparr>p_state := st\<rparr>) cs = (p', Some e)"
      by simp
    from Cons.IH [OF this] obtain pre d post where
      "cs = pre @ d # post" "loop (q\<lparr>p_state := st\<rparr>) pre = (p', None)" "callState p' d = Inl e"
      by auto
    with Inr r show ?thesis
      by (intro exI [of _ "c # pre"] exI [of _ d] exI [of _ post]) simp
  qed
qed

lemma loop_error_at:
  "loop p pre = (q, None) \<Longrightarrow> callState q c = Inl e \<Longrightarrow> loop p (pre @ c # post) = (q, Some e)"
  by (simp add: loop_append)

text \<open>
  C3 (amended). A failing parse stops at the first rune whose state function
  fails, for one of the three reasons; what follows that rune is not read and
  the pending text is not flushed: every input that begins with the same runes
  gives the same result. \<open>parseHTML\<close> returns the empty string with the error;
  \<open>parse\<close> returns the error with the runs flushed so far.
\<close>

theorem parse_failure:
  "snd (parse inp) = Some e \<Longrightarrow>
     \<exists>pre c post q.
        runes inp = pre @ c # post \<and> loop parser0 pre = (q, None) \<and> callState q c = Inl e \<and>
        ((p_state q = StateESC \<and> c \<noteq> runeLit (CHR ''['') \<and> e = parseError) \<or>
         (p_state q = StateCSI \<and> c = runeLit (CHR ''m'') \<and>
            ((\<exists>s\<in>set (Split (p_c q) (CHR '';'')). Atoi s = Inl e) \<or>
             (\<exists>codes j. atoiAll (Split (p_c q) (CHR '';'')) = Inr codes \<and> e = parseError \<and>
                  j < length codes \<and> (codes ! j = 38 \<or> codes ! j = 48) \<and> length codes < j + 3)))) \<and>
        (\<forall>inp' post'. runes inp' = pre @ c # post' \<longrightarrow>
            parse inp' = (p_ts q, Some e) \<and> parseHTML inp' = ([], Some e))"
proof -
  assume a: "snd (parse inp) = Some e"
  then have ne: "inp \<noteq> []"
    by (auto simp: parse_def)
  obtain p err where l: "loop parser0 (runes inp) = (p, err)"
    by (cases "loop parser0 (runes inp)")
  with a ne have "err = Some e"
    by (auto simp: parse_def parser_parse_def split: option.splits)
  with l loop_error_decomp [of parser0 "runes inp" p e]
  obtain pre c post where inp: "runes inp = pre @ c # post" and pre: "loop parser0 pre = (p, None)"
    and c: "callState p c = Inl e"
    by auto
  have "parse inp' = (p_ts p, Some e) \<and> parseHTML inp' = ([], Some e)"
    if "runes inp' = pre @ c # post'" for inp' post'
  proof -
    have "inp' \<noteq> []"
      using that by (auto simp: runes_Nil_iff [symmetric])
    then show ?thesis
      using loop_error_at [OF pre c, of post'] that
      by (simp add: parse_def parseHTML_def parser_parse_def)
  qed
  with inp pre c callState_error [OF c] show ?thesis
    by blast
qed

lemma parse_failure_example:
  "snd (parse (''a'' @ [ESC] @ ''X'')) = Some parseError"
  "parse (''a'' @ [ESC] @ ''X'') = ([\<lparr>t_text = ''a'', t_bg = [], t_fg = [], t_bold = False\<rparr>], Some parseError)"
  "parseHTML (''a'' @ [ESC] @ ''X'') = ([], Some parseError)"
  by code_simp+

theorem parse_failure_witness:
  "(\<exists>pre c post q.
      runes (''a'' @ [ESC] @ ''X'') = pre @ c # post \<and> loop parser0 pre = (q, None) \<and>
      callState q c = Inl parseError \<and>
      (\<forall>inp' post'. runes inp' = pre @ c # post' \<longrightarrow>
          parse inp' = (p_ts q, Some parseError) \<and> parseHTML inp' = ([], Some parseError))) \<and>
   parse (''a'' @ [ESC] @ ''X'')
     = ([\<lparr>t_text = ''a'', t_bg = [], t_fg = [], t_bold = False\<rparr>], Some parseError) \<and>
   parseHTML (''a'' @ [ESC] @ ''X'') = ([], Some parseError)"
  using parse_failure [OF parse_failure_example(1)] parse_failure_example(2,3)
  by blast

theorem parse_failure_counterexample:
  "snd (parse [CHR ''a'', ESC, CHR ''X'']) = Some parseError \<and>
   fst (parse [CHR ''a'', ESC, CHR ''X'']) = [\<lparr>t_text = ''a'', t_bg = [], t_fg = [], t_bold = False\<rparr>] \<and>
   fst (parse [CHR ''a'', ESC, CHR ''X'']) \<noteq> []"
  by code_simp

section \<open>The HTML renderer\<close>

lemma toHTML_spec: "toHTML t = spec_renderRun t"
  by (simp add: toHTML_def spec_renderRun_def spec_styleDecls_def)

lemma parseHTML_runs:
  "parse inp = (ts, None) \<Longrightarrow> parseHTML inp = (concat (map toHTML ts), None)"
proof (cases "inp = []")
  case True
  assume "parse inp = (ts, None)"
  with True have "ts = []"
    by (simp add: parse_def)
  with True show ?thesis
    by (simp add: parseHTML_def parser_parse_def parser_append_def toHTML_default EscapeString_def)
next
  case False
  assume a: "parse inp = (ts, None)"
  obtain p err where pp: "parser_parse parser0 inp = (p, err)"
    by (cases "parser_parse parser0 inp")
  with a False have "err = None" "ts = p_ts p"
    by (simp_all add: parse_def)
  with pp show ?thesis
    by (simp add: parseHTML_def Join_empty_sep)
qed

text \<open>
  C8. \<open>toHTML\<close> is the renderer of the specification: the text with its five
  reserved characters escaped, bare when the style is the default one, else
  inside a span whose style lists the set attributes in the order
  background-color, color, font-weight, joined by \<open>; \<close>. \<open>parseHTML\<close> is the
  outputs of the runs put together in order, and nothing around them.
\<close>

theorem toHTML_renders:
  "toHTML t = spec_renderRun t \<and>
   EscapeString [] = [] \<and> EscapeString (c # s) = escapeChar c @ EscapeString s \<and>
   escapeChar (CHR ''&'') = ''&amp;'' \<and> escapeChar (CHR ''<'') = ''&lt;'' \<and>
   escapeChar (CHR ''>'') = ''&gt;'' \<and> escapeChar (CHR 0x22) = ''&#34;'' \<and>
   escapeChar (CHR 0x27) = ''&#39;'' \<and>
   (c \<notin> {CHR ''&'', CHR ''<'', CHR ''>'', CHR 0x22, CHR 0x27} \<longrightarrow> escapeChar c = [c]) \<and>
   (parse inp = (ts, None) \<longrightarrow> parseHTML inp = (concat (map toHTML ts), None))"
  using toHTML_spec [of t] parseHTML_runs [of inp ts]
  by (simp add: EscapeString_def escapeChar_def)

lemma parse_bold_example:
  "parse ([ESC] @ ''[1mx'') = ([\<lparr>t_text = ''x'', t_bg = [], t_fg = [], t_bold = True\<rparr>], None)"
  by code_simp

lemma spec_renderRun_example:
  "spec_renderRun \<lparr>t_text = ''a<b'', t_bg = ''#000080'', t_fg = ''#800000'', t_bold = True\<rparr>
     = ''<span style='' @ [CHR 0x22]
         @ ''background-color: #000080; color: #800000; font-weight: bold''
         @ [CHR 0x22] @ ''>a&lt;b</span>''"
  "spec_renderRun \<lparr>t_text = ''x'', t_bg = [], t_fg = [], t_bold = True\<rparr>
     = ''<span style='' @ [CHR 0x22] @ ''font-weight: bold'' @ [CHR 0x22] @ ''>x</span>''"
  "spec_renderRun \<lparr>t_text = ''a&b'', t_bg = [], t_fg = [], t_bold = False\<rparr> = ''a&amp;b''"
  by code_simp+

theorem toHTML_renders_witness:
  "toHTML \<lparr>t_text = ''a<b'', t_bg = ''#000080'', t_fg = ''#800000'', t_bold = True\<rparr>
     = ''<span style='' @ [CHR 0x22]
         @ ''background-color: #000080; color: #800000; font-weight: bold''
         @ [CHR 0x22] @ ''>a&lt;b</span>'' \<and>
   toHTML \<lparr>t_text = ''a&b'', t_bg = [], t_fg = [], t_bold = False\<rparr> = ''a&amp;b'' \<and>
   escapeChar (CHR ''x'') = ''x'' \<and>
   parseHTML ([ESC] @ ''[1mx'')
     = (''<span style='' @ [CHR 0x22] @ ''font-weight: bold'' @ [CHR 0x22] @ ''>x</span>'', None)"
  using toHTML_renders [of "\<lparr>t_text = ''a<b'', t_bg = ''#000080'', t_fg = ''#800000'', t_bold = True\<rparr>"
      "CHR ''x''" "[]" "[ESC] @ ''[1mx''" "[\<lparr>t_text = ''x'', t_bg = [], t_fg = [], t_bold = True\<rparr>]"]
    toHTML_renders [of "\<lparr>t_text = ''a&b'', t_bg = [], t_fg = [], t_bold = False\<rparr>"
      "CHR ''x''" "[]" "[]" "[]"]
    toHTML_renders [of "\<lparr>t_text = ''x'', t_bg = [], t_fg = [], t_bold = True\<rparr>"
      "CHR ''x''" "[]" "[]" "[]"]
    parse_bold_example spec_renderRun_example
  by simp

section \<open>The cases of TestParse\<close>

text \<open>The inputs of the repository's test and the runs it expects.\<close>

lemma TestParse_plain:
  "parse [] = ([], None)"
  "parse ''plain'' = ([\<lparr>t_text = ''plain'', t_bg = [], t_fg = [], t_bold = False\<rparr>], None)"
  by code_simp+

lemma TestParse_low_high:
  "parse (''some'' @ [ESC] @ ''[36;44mcolor'') =
     ([\<lparr>t_text = ''some'', t_bg = [], t_fg = [], t_bold = False\<rparr>,
       \<lparr>t_text = ''color'', t_bg = ''#000080'', t_fg = ''#008080'', t_bold = False\<rparr>], None)"
  "parse (''some'' @ [ESC] @ ''[96;104mcolor'') =
     ([\<lparr>t_text = ''some'', t_bg = [], t_fg = [], t_bold = False\<rparr>,
       \<lparr>t_text = ''color'', t_bg = ''#0000ff'', t_fg = ''#00ffff'', t_bold = False\<rparr>], None)"
  by code_simp+

lemma TestParse_256:
  "parse ([ESC] @ ''[38;5;1;48;5;2mword'') =
     ([\<lparr>t_text = ''word'', t_bg = ''#008000'', t_fg = ''#800000'', t_bold = False\<rparr>], None)"
  "parse ([ESC] @ ''[38;5;8;48;5;9mword'') =
     ([\<lparr>t_text = ''word'', t_bg = ''#ff0000'', t_fg = ''#808080'', t_bold = False\<rparr>], None)"
  "parse ([ESC] @ ''[38;5;16mword'') =
     ([\<lparr>t_text = ''word'', t_bg = [], t_fg = ''#000000'', t_bold = False\<rparr>], None)"
  "parse ([ESC] @ ''[38;5;42mword'') =
     ([\<lparr>t_text = ''word'', t_bg = [], t_fg = ''#00d787'', t_bold = False\<rparr>], None)"
  "parse ([ESC] @ ''[38;5;243mword'') =
     ([\<lparr>t_text = ''word'', t_bg = [], t_fg = ''#767676'', t_bold = False\<rparr>], None)"
  by code_simp+

lemma TestParse_reset_bold:
  "parse (''foo'' @ [ESC] @ ''[31mbar'' @ [ESC] @ ''[0mbaz'') =
     ([\<lparr>t_text = ''foo'', t_bg = [], t_fg = [], t_bold = False\<rparr>,
       \<lparr>t_text = ''bar'', t_bg = [], t_fg = ''#800000'', t_bold = False\<rparr>,
       \<lparr>t_text = ''baz'', t_bg = [], t_fg = [], t_bold = False\<rparr>], None)"
  "parse ([ESC] @ ''[1mfoo'') =
     ([\<lparr>t_text = ''foo'', t_bg = [], t_fg = [], t_bold = True\<rparr>], None)"
  "parse ([ESC] @ ''[1m'' @ [ESC] @ ''[33mfoo'') =
     ([\<lparr>t_text = ''foo'', t_bg = [], t_fg = ''#808000'', t_bold = True\<rparr>], None)"
  by code_simp+

end
